theory Spec2Isabelle
  imports Main "HOL-Library.Word"
begin

unbundle bit_operations_syntax

section \<open>The DUML protocol engine of dji-osmo-ble-protocol\<close>

text \<open>
  The development embeds \<^verbatim>\<open>src/protocol/duml.mjs\<close> (message builder, parser,
  stream framer, sequence counter) and the pairing routine of
  \<^verbatim>\<open>src/connection.mjs\<close>. JavaScript numbers that the code uses as integers are
  \<^typ>\<open>int\<close>; a Node.js \<^verbatim>\<open>Buffer\<close> is a list of bytes; a thrown exception is the
  \<open>Inl\<close> branch of a sum.
\<close>

subsection \<open>Buffers and the Node.js primitives the code calls\<close>

type_synonym u8 = "8 word"

type_synonym buffer = "u8 list"

datatype error = RangeError | NotConnected | WriteFailed

text \<open>\<^verbatim>\<open>Buffer.alloc(n)\<close>: \<open>n\<close> zero bytes.\<close>

definition alloc :: "nat \<Rightarrow> buffer" where
  "alloc n = replicate n 0"

text \<open>
  \<^verbatim>\<open>buf[i] = v\<close> on a Buffer stores \<open>v\<close> modulo 256 and ignores an index out of
  range, as \<open>list_update\<close> does.
\<close>

definition setByte :: "buffer \<Rightarrow> nat \<Rightarrow> int \<Rightarrow> buffer" where
  "setByte buf i v = buf[i := word_of_int v]"

text \<open>
  \<^verbatim>\<open>buf.slice(start, end)\<close>: a negative index counts from the end of the buffer,
  both indices are clamped to the buffer, and an end before the start gives the empty
  buffer. \<^verbatim>\<open>buf.slice(start)\<close> runs to the end of the buffer.
\<close>

definition clampIndex :: "buffer \<Rightarrow> int \<Rightarrow> nat" where
  "clampIndex buf i =
     (let n = int (length buf)
      in nat (if i < 0 then max (n + i) 0 else min i n))"

definition slice' :: "buffer \<Rightarrow> int \<Rightarrow> int \<Rightarrow> buffer" where
  "slice' buf start end' =
     (let s = clampIndex buf start; e = clampIndex buf end'
      in take (e - s) (drop s buf))"

definition sliceFrom :: "buffer \<Rightarrow> int \<Rightarrow> buffer" where
  "sliceFrom buf start = slice' buf start (int (length buf))"

text \<open>\<^verbatim>\<open>buf.indexOf(v)\<close>: the first index holding \<open>v\<close>, or \<open>-1\<close>.\<close>

fun indexOf :: "buffer \<Rightarrow> u8 \<Rightarrow> int" where
  "indexOf [] v = -1"
| "indexOf (x # xs) v =
     (if x = v then 0
      else (let r = indexOf xs v in if r = -1 then -1 else r + 1))"

text \<open>
  \<^verbatim>\<open>buf.writeUInt16LE(value, offset)\<close> and \<^verbatim>\<open>buf.writeUInt16BE(value, offset)\<close>
  throw a RangeError (\<^verbatim>\<open>ERR_OUT_OF_RANGE\<close>) when \<open>value\<close> is not in
  \<open>0..65535\<close> or when the two bytes do not fit at \<open>offset\<close>; otherwise they store
  the low and the high byte in the order of the name.
\<close>

definition writeUInt16LE :: "buffer \<Rightarrow> int \<Rightarrow> nat \<Rightarrow> error + buffer" where
  "writeUInt16LE buf v off =
     (if v < 0 \<or> v > 0xFFFF \<or> length buf < off + 2 then Inl RangeError
      else Inr (buf[off := word_of_int v, off + 1 := word_of_int (drop_bit 8 v)]))"

definition writeUInt16BE :: "buffer \<Rightarrow> int \<Rightarrow> nat \<Rightarrow> error + buffer" where
  "writeUInt16BE buf v off =
     (if v < 0 \<or> v > 0xFFFF \<or> length buf < off + 2 then Inl RangeError
      else Inr (buf[off := word_of_int (drop_bit 8 v), off + 1 := word_of_int v]))"

text \<open>\<^verbatim>\<open>buf.readUInt16BE(offset)\<close>, called by the code only with both bytes in range.\<close>

definition readUInt16BE :: "buffer \<Rightarrow> nat \<Rightarrow> int" where
  "readUInt16BE buf off = uint (buf ! off) * 256 + uint (buf ! (off + 1))"

text \<open>
  \<^verbatim>\<open>src.copy(target, targetStart)\<close>: the bytes of \<open>src\<close> overwrite \<open>target\<close> from
  \<open>targetStart\<close>, as many as fit. The code calls it only with \<open>targetStart\<close> inside
  the target.
\<close>

definition copy :: "buffer \<Rightarrow> buffer \<Rightarrow> nat \<Rightarrow> buffer" where
  "copy src target targetStart =
     (let n = min (length src) (length target - targetStart)
      in take targetStart target @ take n src @ drop (targetStart + n) target)"

subsection \<open>CRC calculators\<close>

text \<open>
  \<^verbatim>\<open>new CRC(name, width, poly, init, xorOut, refIn, refOut).compute(data)\<close> of the
  crc-full package: a register of \<open>width\<close> bits that starts at \<open>init\<close>; each input
  byte (bit-reversed when \<open>refIn\<close>) is xor-ed into the top eight bits, which then
  index the table of eight shift-and-xor steps; the result is bit-reversed when
  \<open>refOut\<close> and xor-ed with \<open>xorOut\<close>. The parameters are those of
  \<^verbatim>\<open>CRC_PARAMS\<close> in \<^verbatim>\<open>constants.mjs\<close>.
\<close>

fun crcShift :: "nat \<Rightarrow> 'a::len word \<Rightarrow> 'a word \<Rightarrow> 'a word" where
  "crcShift 0 poly c = c"
| "crcShift (Suc k) poly c =
     crcShift k poly (if bit c (LENGTH('a) - 1) then push_bit 1 c XOR poly else push_bit 1 c)"

definition crcTable :: "'a::len word \<Rightarrow> u8 \<Rightarrow> 'a word" where
  "crcTable poly pos = crcShift 8 poly (push_bit (LENGTH('a) - 8) (ucast pos))"

definition crcUpdate :: "'a::len word \<Rightarrow> bool \<Rightarrow> u8 \<Rightarrow> 'a word \<Rightarrow> 'a word" where
  "crcUpdate poly refIn byte crc =
     (let curByte = (if refIn then word_reverse byte else byte);
          crc1 = crc XOR push_bit (LENGTH('a) - 8) (ucast curByte);
          pos = (ucast (drop_bit (LENGTH('a) - 8) crc1) :: u8);
          crc2 = push_bit 8 crc1
      in crc2 XOR crcTable poly pos)"

definition crcCompute ::
  "'a::len word \<Rightarrow> 'a word \<Rightarrow> 'a word \<Rightarrow> bool \<Rightarrow> bool \<Rightarrow> buffer \<Rightarrow> int" where
  "crcCompute poly init xorOut refIn refOut data =
     (let crc = fold (crcUpdate poly refIn) data init;
          crc' = (if refOut then word_reverse crc else crc)
      in uint (crc' XOR xorOut))"

definition computeCrc8 :: "buffer \<Rightarrow> int" where
  "computeCrc8 data = crcCompute (0x31 :: 8 word) 0xEE 0x00 True True data"

definition computeCrc16 :: "buffer \<Rightarrow> int" where
  "computeCrc16 data = crcCompute (0x1021 :: 16 word) 0x496C 0x0000 True True data"

subsection \<open>Sequence counter\<close>

text \<open>
  The module-level \<^verbatim>\<open>let msgSeq = 0x0100\<close> is the one field of the codec state. It is
  a JavaScript number: \<^verbatim>\<open>msgSeq++\<close> adds one and nothing reduces it modulo 65536.
\<close>

record codec =
  msgSeq :: int

definition initialCodec :: codec where
  "initialCodec = \<lparr>msgSeq = 0x0100\<rparr>"

text \<open>
  \<^verbatim>\<open>resetSequence(val = 0x0100)\<close>: \<open>None\<close> is the call without argument, which
  takes the default.
\<close>

definition resetSequence :: "int option \<Rightarrow> codec \<Rightarrow> codec" where
  "resetSequence val s = s\<lparr>msgSeq := (case val of None \<Rightarrow> 0x0100 | Some v \<Rightarrow> v)\<rparr>"

subsection \<open>Building a message\<close>

text \<open>
  \<^verbatim>\<open>buildMessage(target, flags, cmdSet, cmdId, payload)\<close>. The payload is optional
  (\<open>None\<close> is \<^verbatim>\<open>undefined\<close>). The result pairs the returned buffer, or the exception
  thrown, with the codec state after the call: \<^verbatim>\<open>msgSeq++\<close> is evaluated before
  \<^verbatim>\<open>writeUInt16BE\<close> checks its argument, so the counter is incremented also when
  that call throws.
\<close>

definition buildMessage ::
  "codec \<Rightarrow> int \<Rightarrow> int \<Rightarrow> int \<Rightarrow> int \<Rightarrow> buffer option \<Rightarrow> (error + buffer) \<times> codec" where
  "buildMessage s target flags' cmdSet' cmdId' payload' =
     (let payloadLen = (case payload' of None \<Rightarrow> 0 | Some p \<Rightarrow> length p);
          totalLen = 13 + payloadLen;
          buf0 = alloc totalLen;
          buf1 = setByte buf0 0 0x55;
          version = (1 :: int);
          buf2 = setByte buf1 1 (int totalLen AND 0xFF);
          buf3 = setByte buf2 2 ((drop_bit 8 (int totalLen) AND 0x03) OR push_bit 2 version);
          buf4 = setByte buf3 3 (computeCrc8 (slice' buf3 0 3))
      in case writeUInt16LE buf4 target 4 of
           Inl e \<Rightarrow> (Inl e, s)
         | Inr buf6 \<Rightarrow>
            (let seq = msgSeq s;
                 s' = s\<lparr>msgSeq := msgSeq s + 1\<rparr>
             in case writeUInt16BE buf6 seq 6 of
                  Inl e \<Rightarrow> (Inl e, s')
                | Inr buf8 \<Rightarrow>
                   (let buf9 = setByte buf8 8 flags';
                        buf10 = setByte buf9 9 cmdSet';
                        buf11 = setByte buf10 10 cmdId';
                        (buf12, off) =
                          (case payload' of
                             None \<Rightarrow> (buf11, 11)
                           | Some p \<Rightarrow>
                               if payloadLen > 0 then (copy p buf11 11, 11 + payloadLen)
                               else (buf11, 11));
                        crc16 = computeCrc16 (slice' buf12 0 (int off))
                    in case writeUInt16LE buf12 crc16 off of
                         Inl e \<Rightarrow> (Inl e, s')
                       | Inr buf13 \<Rightarrow> (Inr buf13, s'))))"

subsection \<open>Parsing a single message\<close>

text \<open>The object \<^verbatim>\<open>parseMessage\<close> returns; \<open>None\<close> is \<^verbatim>\<open>null\<close>.\<close>

record message =
  length' :: int
  sender :: int
  receiver :: int
  msgId :: int
  flags :: int
  cmdSet :: int
  cmdId :: int
  payload :: buffer
  raw :: buffer

text \<open>The length field \<^verbatim>\<open>data[1] | ((data[2] & 0x03) << 8)\<close>.\<close>

definition lengthField :: "buffer \<Rightarrow> int" where
  "lengthField data = uint (data ! 1) OR push_bit 8 (uint (data ! 2) AND 0x03)"

definition parseMessage :: "buffer \<Rightarrow> message option" where
  "parseMessage data =
     (if length data < 13 \<or> data ! 0 \<noteq> 0x55 then None
      else (let len = lengthField data
            in if int (length data) < len then None
               else Some \<lparr>length' = len,
                          sender = uint (data ! 4),
                          receiver = uint (data ! 5),
                          msgId = readUInt16BE data 6,
                          flags = uint (data ! 8),
                          cmdSet = uint (data ! 9),
                          cmdId = uint (data ! 10),
                          payload = slice' data 11 (len - 2),
                          raw = slice' data 0 len\<rparr>))"

subsection \<open>Parsing a stream buffer\<close>

text \<open>
  \<^verbatim>\<open>parseStream(buffer)\<close> is a \<^verbatim>\<open>while (buffer.length >= 13)\<close> loop over the pair
  of the local \<open>messages\<close> and the reassigned \<open>buffer\<close>. \<open>parseStream_body\<close> is one
  pass through the loop body: \<open>Break\<close> for \<^verbatim>\<open>break\<close>, \<open>Continue\<close> for
  \<^verbatim>\<open>continue\<close> and for reaching the end of the body.
\<close>

datatype 'a step = Break 'a | Continue 'a

definition parseStream_body :: "message list \<times> buffer \<Rightarrow> (message list \<times> buffer) step" where
  "parseStream_body st =
     (let (messages, buffer) = st;
          magicIdx = indexOf buffer 0x55
      in if magicIdx = -1 then Break (messages, alloc 0)
         else
          (let buffer1 = (if magicIdx > 0 then sliceFrom buffer magicIdx else buffer)
           in if length buffer1 < 4 then Break (messages, buffer1)
              else
               (let msgLen = lengthField buffer1
                in if msgLen < 13 \<or> msgLen > 1024
                   then Continue (messages, sliceFrom buffer1 1)
                   else if int (length buffer1) < msgLen then Break (messages, buffer1)
                   else
                    (let msgData = slice' buffer1 0 msgLen;
                         buffer2 = sliceFrom buffer1 msgLen
                     in Continue
                          (case parseMessage msgData of
                             None \<Rightarrow> messages
                           | Some msg \<Rightarrow> messages @ [msg],
                           buffer2)))))"

text \<open>The loop with a bound on the number of passes: \<open>None\<close> when the bound is hit.\<close>

fun parseStream_fuel ::
  "nat \<Rightarrow> message list \<times> buffer \<Rightarrow> (message list \<times> buffer) option" where
  "parseStream_fuel 0 st = None"
| "parseStream_fuel (Suc n) st =
     (if 13 \<le> length (snd st)
      then (case parseStream_body st of
              Break r \<Rightarrow> Some r
            | Continue st' \<Rightarrow> parseStream_fuel n st')
      else Some st)"

subsection \<open>Facts about the buffer primitives\<close>

lemma clampIndex_nonneg: "0 \<le> i \<Longrightarrow> clampIndex buf i = min (nat i) (length buf)"
  by (auto simp: clampIndex_def Let_def min_def)

lemma slice_nonneg:
  "0 \<le> s \<Longrightarrow> 0 \<le> e \<Longrightarrow> slice' buf s e = take (nat e - nat s) (drop (nat s) buf)"
  by (auto simp: slice'_def clampIndex_nonneg Let_def min_def)

lemma slice_zero: "0 \<le> e \<Longrightarrow> slice' buf 0 e = take (nat e) buf"
  by (simp add: slice_nonneg)

lemma sliceFrom_nonneg: "0 \<le> s \<Longrightarrow> sliceFrom buf s = drop (nat s) buf"
  by (simp add: sliceFrom_def slice_nonneg)

lemma indexOf_range: "indexOf buf v = -1 \<or> (0 \<le> indexOf buf v \<and> indexOf buf v < int (length buf))"
  by (induction buf) (auto simp: Let_def)

lemma indexOf_absent: "indexOf buf v = -1 \<longleftrightarrow> v \<notin> set buf"
proof (induction buf)
  case Nil
  show ?case by simp
next
  case (Cons x xs)
  have "indexOf xs v = -1 \<or> 0 \<le> indexOf xs v"
    using indexOf_range [of xs v] by blast
  with Cons show ?case by (auto simp: Let_def)
qed

lemma indexOf_found:
  "v \<in> set buf \<Longrightarrow>
     buf ! nat (indexOf buf v) = v \<and> v \<notin> set (take (nat (indexOf buf v)) buf)"
proof (induction buf)
  case Nil
  then show ?case by simp
next
  case (Cons x xs)
  show ?case
  proof (cases "x = v")
    case True
    then show ?thesis by simp
  next
    case False
    with Cons.prems have in_xs: "v \<in> set xs" by simp
    then have neq: "indexOf xs v \<noteq> -1" by (simp add: indexOf_absent)
    then have ge: "0 \<le> indexOf xs v" using indexOf_range [of xs v] by blast
    have step: "indexOf (x # xs) v = indexOf xs v + 1"
      using False neq by (simp add: Let_def)
    have nat_step: "nat (indexOf xs v + 1) = Suc (nat (indexOf xs v))"
      using ge by simp
    show ?thesis
      unfolding step nat_step using Cons.IH [OF in_xs] False by simp
  qed
qed

lemma indexOf_prefix: "v \<notin> set pre \<Longrightarrow> indexOf (pre @ v # rest) v = int (length pre)"
  by (induction pre) (auto simp: Let_def)

lemma lengthField_range: "0 \<le> lengthField data \<and> lengthField data < 1024"
proof -
  have a: "0 \<le> uint (data ! 1)" and b: "uint (data ! 1) < 2 ^ 8"
    using uint_lt2p [of "data ! 1"] by simp_all
  have c: "0 \<le> uint (data ! 2) AND 3" and d: "uint (data ! 2) AND 3 \<le> 3"
    by (simp_all add: AND_upper2')
  have e: "push_bit 8 (uint (data ! 2) AND 3) < 2 ^ 10"
    using d by (simp add: push_bit_eq_mult)
  have f: "0 \<le> push_bit 8 (uint (data ! 2) AND 3)"
    using c by (simp add: push_bit_eq_mult)
  have "uint (data ! 1) OR push_bit 8 (uint (data ! 2) AND 3) < 2 ^ 10"
    using a b e f by (intro OR_upper) simp_all
  moreover have "0 \<le> uint (data ! 1) OR push_bit 8 (uint (data ! 2) AND 3)"
    using a f by simp
  ultimately show ?thesis by (simp add: lengthField_def)
qed

lemma parseStream_body_decreases:
  assumes "13 \<le> length buffer"
    and "parseStream_body (messages, buffer) = Continue (messages', buffer')"
  shows "length buffer' < length buffer"
proof -
  let ?i = "indexOf buffer 0x55"
  define b1 where "b1 = (if ?i > 0 then sliceFrom buffer ?i else buffer)"
  have body: "parseStream_body (messages, buffer) =
      (if ?i = -1 then Break (messages, alloc 0)
       else if length b1 < 4 then Break (messages, b1)
       else if lengthField b1 < 13 \<or> lengthField b1 > 1024
         then Continue (messages, sliceFrom b1 1)
       else if int (length b1) < lengthField b1 then Break (messages, b1)
       else Continue
              (case parseMessage (slice' b1 0 (lengthField b1)) of
                 None \<Rightarrow> messages
               | Some msg \<Rightarrow> messages @ [msg],
               sliceFrom b1 (lengthField b1)))"
    by (simp add: parseStream_body_def Let_def b1_def)
  from assms(2) have found: "?i \<noteq> -1"
    by (auto simp: body split: if_splits)
  then have range: "0 \<le> ?i" "?i < int (length buffer)"
    using indexOf_range [of buffer "0x55"] by auto
  have "b1 = drop (nat ?i) buffer"
    using range by (cases "?i = 0") (simp_all add: sliceFrom_nonneg b1_def)
  then have len1: "length b1 \<le> length buffer" by simp
  have ge4: "4 \<le> length b1"
    using assms(2) found by (auto simp: body split: if_splits)
  have lf: "0 \<le> lengthField b1" using lengthField_range by blast
  show ?thesis
  proof (cases "lengthField b1 < 13 \<or> lengthField b1 > 1024")
    case True
    with assms(2) found ge4 have "buffer' = sliceFrom b1 1"
      by (auto simp: body split: if_splits)
    then have "buffer' = drop 1 b1" by (simp add: sliceFrom_nonneg)
    then show ?thesis using ge4 len1 by simp
  next
    case False
    with assms(2) found ge4 have "buffer' = sliceFrom b1 (lengthField b1)"
      by (auto simp: body split: if_splits)
    then have "buffer' = drop (nat (lengthField b1)) b1"
      using lf by (simp add: sliceFrom_nonneg)
    moreover have "13 \<le> nat (lengthField b1)" using False by linarith
    ultimately show ?thesis using ge4 len1 by simp
  qed
qed

text \<open>
  The loop itself. Each pass that does not leave the loop shortens the buffer, which is
  the termination argument.
\<close>

function parseStream_loop :: "message list \<times> buffer \<Rightarrow> message list \<times> buffer" where
  "parseStream_loop st =
     (if 13 \<le> length (snd st)
      then (case parseStream_body st of
              Break r \<Rightarrow> r
            | Continue st' \<Rightarrow> parseStream_loop st')
      else st)"
  by pat_completeness auto
termination
proof (relation "measure (\<lambda>st. length (snd st))")
  show "wf (measure (\<lambda>st. length (snd st)))" by simp
next
  fix st st' :: "message list \<times> buffer"
  assume "13 \<le> length (snd st)" and "parseStream_body st = Continue st'"
  then have "length (snd st') < length (snd st)"
    using parseStream_body_decreases [of "snd st" "fst st" "fst st'" "snd st'"] by simp
  then show "(st', st) \<in> measure (\<lambda>st. length (snd st))" by simp
qed

declare parseStream_loop.simps [simp del]

text \<open>
  \<^verbatim>\<open>parseStream\<close> starts the loop with no messages and returns
  \<^verbatim>\<open>{ messages, remaining: buffer }\<close>, here the pair of the two.
\<close>

definition parseStream :: "buffer \<Rightarrow> message list \<times> buffer" where
  "parseStream buffer = parseStream_loop ([], buffer)"

text \<open>
  \<^verbatim>\<open>BleTransport._processIncoming(data)\<close>: the chunk is appended to
  \<^verbatim>\<open>this._receiveBuffer\<close>, the whole is parsed, the remainder is kept and the messages
  are emitted. The result is the pair of the messages emitted and the new receive buffer.
\<close>

definition processIncoming :: "buffer \<Rightarrow> buffer \<Rightarrow> message list \<times> buffer" where
  "processIncoming receiveBuffer data = parseStream (receiveBuffer @ data)"

subsection \<open>The connection: routing of messages and the pairing routine\<close>

text \<open>
  \<^verbatim>\<open>packString(str)\<close>, on the UTF-8 bytes \<^verbatim>\<open>Buffer.from(str, 'utf8')\<close> of the string:
  one byte for their number, then the bytes.
\<close>

definition packString :: "buffer \<Rightarrow> buffer" where
  "packString strBuf =
     (let out = alloc (1 + length strBuf);
          out1 = setByte out 0 (int (length strBuf))
      in copy strBuf out1 1)"

text \<open>\<^verbatim>\<open>buf[i]\<close> as a read: \<^verbatim>\<open>undefined\<close> (\<open>None\<close>) outside the buffer.\<close>

definition byteAt :: "buffer \<Rightarrow> nat \<Rightarrow> int option" where
  "byteAt buf i = (if i < length buf then Some (uint (buf ! i)) else None)"

text \<open>\<^verbatim>\<open>buf.readInt16LE(offset)\<close>, called by the code only with both bytes in range.\<close>

definition readInt16LE :: "buffer \<Rightarrow> nat \<Rightarrow> int" where
  "readInt16LE buf off =
     (let u = uint (buf ! off) + 256 * uint (buf ! (off + 1))
      in if u \<ge> 0x8000 then u - 0x10000 else u)"

text \<open>
  The state of the gimbal controller. The code stores the angles as the telemetry
  integers divided by \<open>10.0\<close>; the model keeps the integers (tenths of a degree).
\<close>

record gimbalState =
  pitch10 :: int
  roll10 :: int
  yaw10 :: int
  mode :: "int option"

text \<open>The events an \<^verbatim>\<open>OsmoConnection\<close> emits from the code modelled here.\<close>

datatype event =
    EvPairing
  | EvPaired bool
  | EvPairingRequired
  | EvPairingTimeout
  | EvBattery int
  | EvGimbalState gimbalState
  | EvRawMessage message

text \<open>
  An \<^verbatim>\<open>OsmoConnection\<close>: the fields \<^verbatim>\<open>_paired\<close>, \<^verbatim>\<open>_battery\<close> and the gimbal
  controller's \<^verbatim>\<open>_state\<close>, and the events emitted so far, oldest first.
\<close>

record connection =
  paired :: bool
  battery :: "int option"
  gimbal :: gimbalState
  emitted :: "event list"

text \<open>The connection as its constructor leaves it.\<close>

definition newConnection :: connection where
  "newConnection =
     \<lparr>paired = False, battery = None,
      gimbal = \<lparr>pitch10 = 0, roll10 = 0, yaw10 = 0, mode = None\<rparr>,
      emitted = []\<rparr>"

definition emit :: "event \<Rightarrow> connection \<Rightarrow> connection" where
  "emit e c = c\<lparr>emitted := emitted c @ [e]\<rparr>"

text \<open>\<^verbatim>\<open>GimbalController.handleMessage\<close>, with its \<open>state\<close> event forwarded as \<open>gimbalState\<close>.\<close>

definition gimbal_handleMessage :: "message \<Rightarrow> connection \<Rightarrow> connection" where
  "gimbal_handleMessage msg c =
     (if cmdSet msg \<noteq> 0x04 then c
      else if cmdId msg = 0x05 \<and> length (payload msg) \<ge> 6 then
        (let g1 = (gimbal c)\<lparr>pitch10 := readInt16LE (payload msg) 0,
                                 roll10 := readInt16LE (payload msg) 2,
                                 yaw10 := readInt16LE (payload msg) 4\<rparr>;
             g2 = (if length (payload msg) \<ge> 7 then g1\<lparr>mode := byteAt (payload msg) 6\<rparr> else g1)
         in emit (EvGimbalState g2) (c\<lparr>gimbal := g2\<rparr>))
      else c)"

text \<open>\<^verbatim>\<open>OsmoConnection._handleMessage(msg)\<close>; \<open>None\<close> is a falsy \<open>msg\<close>.\<close>

definition handleMessage :: "message option \<Rightarrow> connection \<Rightarrow> connection" where
  "handleMessage msg' c =
     (case msg' of
        None \<Rightarrow> c
      | Some msg \<Rightarrow>
          if cmdSet msg = 0x04 then gimbal_handleMessage msg c
          else if cmdSet msg = 0x07 then
            (if cmdId msg = 0x45 \<and> (flags msg AND 0x80) \<noteq> 0 then
               (let status = (if length (payload msg) \<ge> 2 then byteAt (payload msg) 1
                              else byteAt (payload msg) 0)
                in if status = Some 0x01 then emit (EvPaired True) (c\<lparr>paired := True\<rparr>)
                   else if status = Some 0x02 then emit EvPairingRequired c
                   else c)
             else if cmdId msg = 0x46 \<and> byteAt (payload msg) 0 = Some 0x01 then
               emit (EvPaired False) (c\<lparr>paired := True\<rparr>)
             else c)
          else if cmdSet msg = 0x06 \<and> length (payload msg) \<ge> 1 then
            (let b = uint (payload msg ! 0)
             in emit (EvBattery b) (c\<lparr>battery := Some b\<rparr>))
          else emit (EvRawMessage msg) c)"

text \<open>
  The routine \<^verbatim>\<open>_pair\<close> is asynchronous: at each \<^verbatim>\<open>await\<close> the event loop may run
  the \<open>message\<close> listener, which calls \<^verbatim>\<open>_handleMessage\<close>, for the messages that
  arrived meanwhile. The environment of a run says what each transport write answers and
  which messages arrive during each suspension: number 0 is the write of the trigger
  and the settle delay of 200 ms, number 1 the write of the credentials, number
  \<open>2 + i\<close> the \<open>i\<close>-th delay of 500 ms of the polling loop. Time itself is not
  modelled: a delay is the messages that arrive in it.
\<close>

record environment =
  writeFff4Result :: "error option"
  writeResult :: "error option"
  arrivals :: "nat \<Rightarrow> message option list"

definition deliver :: "message option list \<Rightarrow> connection \<Rightarrow> connection" where
  "deliver msgs c = fold handleMessage msgs c"

text \<open>
  The first part of \<^verbatim>\<open>_pair\<close>, up to \<^verbatim>\<open>this.emit('pairing')\<close>: the trigger on fff4,
  the settle delay, the credentials built by \<^verbatim>\<open>buildMessage\<close> and written. A failed
  write or a throwing \<^verbatim>\<open>buildMessage\<close> rejects the promise: \<open>Inl\<close>.
\<close>

definition sendCredentials ::
  "environment \<Rightarrow> buffer \<Rightarrow> buffer \<Rightarrow> connection \<times> codec \<Rightarrow>
     (error + buffer) \<times> connection \<times> codec" where
  "sendCredentials env identifier pin st =
     (let (c, s) = st
      in case writeFff4Result env of
           Some e \<Rightarrow> (Inl e, c, s)
         | None \<Rightarrow>
            (let c1 = deliver (arrivals env 0) c;
                 payload' = packString identifier @ packString pin;
                 (built, s1) = buildMessage s 0x0702 0x40 0x07 0x45 (Some payload')
             in case built of
                  Inl e \<Rightarrow> (Inl e, c1, s1)
                | Inr msg \<Rightarrow>
                   (case writeResult env of
                      Some e \<Rightarrow> (Inl e, c1, s1)
                    | None \<Rightarrow> (Inr msg, emit EvPairing (deliver (arrivals env 1) c1), s1))))"

text \<open>
  The polling loop \<^verbatim>\<open>for (let i = 0; i < 30 && !this._paired; i++)\<close>; it returns the
  connection and the final \<open>i\<close>, the number of delays it waited.
\<close>

function pollLoop :: "environment \<Rightarrow> nat \<Rightarrow> connection \<Rightarrow> connection \<times> nat" where
  "pollLoop env i c =
     (if i < 30 \<and> \<not> paired c then pollLoop env (i + 1) (deliver (arrivals env (2 + i)) c)
      else (c, i))"
  by pat_completeness auto
termination
  by (relation "measure (\<lambda>(env, i, c). 30 - i)") auto

declare pollLoop.simps [simp del]

text \<open>
  \<^verbatim>\<open>OsmoConnection._pair\<close>: the result is the returned \<^verbatim>\<open>this._paired\<close>, or the
  exception; with it the connection, the codec state and the number of delays the loop
  waited.
\<close>

definition pair ::
  "environment \<Rightarrow> buffer \<Rightarrow> buffer \<Rightarrow> connection \<times> codec \<Rightarrow>
     (error + bool) \<times> connection \<times> codec \<times> nat" where
  "pair env identifier pin st =
     (case sendCredentials env identifier pin st of
        (Inl e, c, s) \<Rightarrow> (Inl e, c, s, 0)
      | (Inr msg, c, s) \<Rightarrow>
          (let (c1, polls) = pollLoop env 0 c;
               c2 = (if \<not> paired c1 then emit EvPairingTimeout c1 else c1)
           in (Inr (paired c2), c2, s, polls)))"

section \<open>Facts about the embedding\<close>

subsection \<open>The wire layout of a built message\<close>

text \<open>
  The bytes \<^verbatim>\<open>buildMessage\<close> returns when it does not throw: eleven header bytes,
  the payload, and the CRC-16 of both, low byte first. That these are the bytes is the
  lemma \<open>buildMessage_cases\<close>, proved from the definition of \<open>buildMessage\<close>.
\<close>

definition frameHeader :: "nat \<Rightarrow> int \<Rightarrow> int \<Rightarrow> int \<Rightarrow> int \<Rightarrow> int \<Rightarrow> buffer" where
  "frameHeader totalLen target seq flags' cmdSet' cmdId' =
     (let b1 = word_of_int (int totalLen AND 0xFF);
          b2 = word_of_int ((drop_bit 8 (int totalLen) AND 0x03) OR push_bit 2 1)
      in [0x55, b1, b2, word_of_int (computeCrc8 [0x55, b1, b2]),
          word_of_int target, word_of_int (drop_bit 8 target),
          word_of_int (drop_bit 8 seq), word_of_int seq,
          word_of_int flags', word_of_int cmdSet', word_of_int cmdId'])"

definition frameTrailer :: "buffer \<Rightarrow> buffer" where
  "frameTrailer body =
     (let crc16 = computeCrc16 body in [word_of_int crc16, word_of_int (drop_bit 8 crc16)])"

definition frameBytes :: "int \<Rightarrow> int \<Rightarrow> int \<Rightarrow> int \<Rightarrow> int \<Rightarrow> buffer \<Rightarrow> buffer" where
  "frameBytes target seq flags' cmdSet' cmdId' p =
     (let body = frameHeader (13 + length p) target seq flags' cmdSet' cmdId' @ p
      in body @ frameTrailer body)"

lemma alloc_frame: "alloc (13 + n) = [0,0,0,0,0,0,0,0,0,0,0] @ replicate n 0 @ [0,0]"
proof -
  have "replicate (13 + n) (0::u8) = replicate 11 0 @ replicate n 0 @ replicate 2 0"
    unfolding replicate_add [symmetric] by simp
  then show ?thesis by (simp add: alloc_def eval_nat_numeral)
qed

lemma computeCrc16_range: "0 \<le> computeCrc16 d \<and> computeCrc16 d \<le> 0xFFFF"
proof -
  have "uint (w :: 16 word) < 2 ^ 16" for w using uint_lt2p [of w] by simp
  then have "uint (w :: 16 word) \<le> 0xFFFF" for w using zle_diff1_eq [of "uint w" "2 ^ 16"] by simp
  then show ?thesis by (simp add: computeCrc16_def crcCompute_def Let_def) 
qed

lemma list_update_Cons_numeral:
  "(x # xs)[numeral v := y] = x # xs[numeral v - 1 := y]"
  by (simp add: numeral_eq_Suc)

lemma copy_payload:
  "(if p \<noteq> [] then (copy p b 11, 11 + length p) else (b, 11)) = (copy p b 11, 11 + length p)"
  by (simp add: copy_def)

lemma copy_frame:
  "length h = 11 \<Longrightarrow> copy p (h @ replicate (length p) 0 @ t) 11 = h @ p @ t"
  by (simp add: copy_def)

lemma crc16_not_low: "\<not> computeCrc16 d < 0"
  using computeCrc16_range [of d] by simp

lemma crc16_not_high: "\<not> 65535 < computeCrc16 d"
  using computeCrc16_range [of d] by simp

lemma take_header:
  "take (11 + n) (a0 # a1 # a2 # a3 # a4 # a5 # a6 # a7 # a8 # a9 # a10 # r) =
     a0 # a1 # a2 # a3 # a4 # a5 # a6 # a7 # a8 # a9 # a10 # take n r"
  using take_add [of 11 n "a0 # a1 # a2 # a3 # a4 # a5 # a6 # a7 # a8 # a9 # a10 # r"] by simp

lemma drop_header:
  "drop (11 + n) (a0 # a1 # a2 # a3 # a4 # a5 # a6 # a7 # a8 # a9 # a10 # r) = drop n r"
  using drop_drop [of n 11 "a0 # a1 # a2 # a3 # a4 # a5 # a6 # a7 # a8 # a9 # a10 # r"]
  by (simp add: add.commute)

lemma update_header:
  "(a0 # a1 # a2 # a3 # a4 # a5 # a6 # a7 # a8 # a9 # a10 # r)[11 + n := v] =
     a0 # a1 # a2 # a3 # a4 # a5 # a6 # a7 # a8 # a9 # a10 # r[n := v]"
  using list_update_append [of "[a0, a1, a2, a3, a4, a5, a6, a7, a8, a9, a10]" r "11 + n" v]
  by simp

lemma update_header':
  "(a0 # a1 # a2 # a3 # a4 # a5 # a6 # a7 # a8 # a9 # a10 # r)[12 + n := v] =
     a0 # a1 # a2 # a3 # a4 # a5 # a6 # a7 # a8 # a9 # a10 # r[Suc n := v]"
  using update_header [of a0 a1 a2 a3 a4 a5 a6 a7 a8 a9 a10 r "Suc n" v] by simp

lemma copy_header:
  "copy p (a0 # a1 # a2 # a3 # a4 # a5 # a6 # a7 # a8 # a9 # a10 # replicate (length p) 0 @ t) 11 =
     a0 # a1 # a2 # a3 # a4 # a5 # a6 # a7 # a8 # a9 # a10 # p @ t"
  by (simp add: copy_def drop_header)

lemma buildMessage_ok:
  assumes "0 \<le> target" "target \<le> 0xFFFF" "0 \<le> msgSeq s" "msgSeq s \<le> 0xFFFF"
  shows "buildMessage s target flags' cmdSet' cmdId' (Some p) =
    (Inr (frameBytes target (msgSeq s) flags' cmdSet' cmdId' p), s\<lparr>msgSeq := msgSeq s + 1\<rparr>)"
  using assms
  by (simp add: crc16_not_low crc16_not_high buildMessage_def Let_def alloc_frame setByte_def slice_zero list_update_Cons_numeral
     writeUInt16LE_def writeUInt16BE_def copy_payload copy_header take_header update_header update_header'
     list_update_append frameBytes_def frameHeader_def frameTrailer_def)

lemma buildMessage_None:
  "buildMessage s target flags' cmdSet' cmdId' None = buildMessage s target flags' cmdSet' cmdId' (Some [])"
  by (simp add: buildMessage_def Let_def cong: sum.case_cong)

lemma buildMessage_target_range:
  "target < 0 \<or> target > 0xFFFF \<Longrightarrow>
     buildMessage s target flags' cmdSet' cmdId' payload' = (Inl RangeError, s)"
  by (auto simp: buildMessage_def Let_def writeUInt16LE_def)

lemma buildMessage_seq_range:
  assumes "0 \<le> target" "target \<le> 0xFFFF" and "msgSeq s < 0 \<or> msgSeq s > 0xFFFF"
  shows "buildMessage s target flags' cmdSet' cmdId' payload' =
           (Inl RangeError, s\<lparr>msgSeq := msgSeq s + 1\<rparr>)"
proof -
  have "length (setByte b i v) = length b" for b i v by (simp add: setByte_def)
  then show ?thesis using assms
  by (auto simp: buildMessage_def Let_def writeUInt16LE_def writeUInt16BE_def alloc_def)
qed

definition payloadBytes :: "buffer option \<Rightarrow> buffer" where
  "payloadBytes payload' = (case payload' of None \<Rightarrow> [] | Some p \<Rightarrow> p)"

lemma buildMessage_cases:
  "buildMessage s target flags' cmdSet' cmdId' payload' =
     (if target < 0 \<or> target > 0xFFFF then (Inl RangeError, s)
      else if msgSeq s < 0 \<or> msgSeq s > 0xFFFF
        then (Inl RangeError, s\<lparr>msgSeq := msgSeq s + 1\<rparr>)
      else (Inr (frameBytes target (msgSeq s) flags' cmdSet' cmdId' (payloadBytes payload')),
            s\<lparr>msgSeq := msgSeq s + 1\<rparr>))"
proof (cases payload')
  case None
  then show ?thesis
    using buildMessage_target_range [of target s flags' cmdSet' cmdId' payload']
      buildMessage_seq_range [of target s flags' cmdSet' cmdId' payload']
      buildMessage_ok [of target s flags' cmdSet' cmdId' "[]"]
    by (auto simp: buildMessage_None payloadBytes_def)
next
  case (Some p)
  then show ?thesis
    using buildMessage_target_range [of target s flags' cmdSet' cmdId' payload']
      buildMessage_seq_range [of target s flags' cmdSet' cmdId' payload']
      buildMessage_ok [of target s flags' cmdSet' cmdId' p]
    by (auto simp: payloadBytes_def)
qed

lemma buildMessage_Inr:
  assumes "buildMessage s target flags' cmdSet' cmdId' payload' = (Inr frame, s')"
  shows "frame = frameBytes target (msgSeq s) flags' cmdSet' cmdId' (payloadBytes payload')"
    and "s' = s\<lparr>msgSeq := msgSeq s + 1\<rparr>"
    and "0 \<le> target \<and> target \<le> 0xFFFF \<and> 0 \<le> msgSeq s \<and> msgSeq s \<le> 0xFFFF"
  using assms by (auto simp: buildMessage_cases split: if_splits)

subsection \<open>Decoding a built message\<close>

lemma lengthField_encode:
  "lengthField (a # word_of_int (N AND 0xFF) # word_of_int ((drop_bit 8 N AND 0x03) OR push_bit 2 1) # rest)
     = N mod 1024"
proof -
  have "bit (push_bit 2 (1 :: int)) k \<longleftrightarrow> k = 2" for k
    by (auto simp: bit_push_bit_iff bit_1_iff simp del: push_bit_of_1)
  then have b4: "bit (4 :: int) k \<longleftrightarrow> k = 2" for k by simp
  have m8: "(255 :: int) = mask 8" and m2: "(3 :: int) = mask 2" by (simp_all add: mask_eq_exp_minus_1)
  have "uint (word_of_int (N AND mask 8) :: u8) OR
        push_bit 8 (uint (word_of_int ((drop_bit 8 N AND mask 2) OR push_bit 2 1) :: u8) AND mask 2)
        = take_bit 10 N"
    by (rule bit_eqI) (auto simp: bit_simps b4)
  then show ?thesis
    by (simp add: lengthField_def m8 m2 take_bit_eq_mod)
qed

lemma frameHeader_length [simp]: "length (frameHeader n target seq flags' cmdSet' cmdId') = 11"
  by (simp add: frameHeader_def Let_def)

lemma frameTrailer_length [simp]: "length (frameTrailer body) = 2"
  by (simp add: frameTrailer_def Let_def)

lemma frameBytes_length: "length (frameBytes target seq flags' cmdSet' cmdId' p) = 13 + length p"
  by (simp add: frameBytes_def Let_def)

lemma frameHeader_nth:
  "frameHeader n target seq flags' cmdSet' cmdId' ! 0 = 0x55"
  "frameHeader n target seq flags' cmdSet' cmdId' ! 4 = word_of_int target"
  "frameHeader n target seq flags' cmdSet' cmdId' ! 5 = word_of_int (drop_bit 8 target)"
  "frameHeader n target seq flags' cmdSet' cmdId' ! 6 = word_of_int (drop_bit 8 seq)"
  "frameHeader n target seq flags' cmdSet' cmdId' ! 7 = word_of_int seq"
  "frameHeader n target seq flags' cmdSet' cmdId' ! 8 = word_of_int flags'"
  "frameHeader n target seq flags' cmdSet' cmdId' ! 9 = word_of_int cmdSet'"
  "frameHeader n target seq flags' cmdSet' cmdId' ! 10 = word_of_int cmdId'"
  by (simp_all add: frameHeader_def Let_def)

lemma frameHeader_lengthField:
  "lengthField (frameHeader n target seq flags' cmdSet' cmdId' @ r) = int n mod 1024"
  using lengthField_encode [of _ "int n"]
  by (simp add: frameHeader_def Let_def)

lemma header_nth:
  "i < 11 \<Longrightarrow> (frameHeader n target seq flags' cmdSet' cmdId' @ r) ! i =
     frameHeader n target seq flags' cmdSet' cmdId' ! i"
  by (simp add: nth_append)

lemma frameBytes_nth:
  "frameBytes target seq flags' cmdSet' cmdId' p ! 0 = 0x55"
  "frameBytes target seq flags' cmdSet' cmdId' p ! 4 = word_of_int target"
  "frameBytes target seq flags' cmdSet' cmdId' p ! 5 = word_of_int (drop_bit 8 target)"
  "frameBytes target seq flags' cmdSet' cmdId' p ! 6 = word_of_int (drop_bit 8 seq)"
  "frameBytes target seq flags' cmdSet' cmdId' p ! 7 = word_of_int seq"
  "frameBytes target seq flags' cmdSet' cmdId' p ! 8 = word_of_int flags'"
  "frameBytes target seq flags' cmdSet' cmdId' p ! 9 = word_of_int cmdSet'"
  "frameBytes target seq flags' cmdSet' cmdId' p ! 10 = word_of_int cmdId'"
  by (simp_all add: frameBytes_def Let_def header_nth frameHeader_nth)

lemma frameBytes_lengthField:
  "lengthField (frameBytes target seq flags' cmdSet' cmdId' p) = int (13 + length p) mod 1024"
  by (simp add: frameBytes_def Let_def frameHeader_lengthField)

lemma frameBytes_drop:
  "drop 11 (frameBytes target seq flags' cmdSet' cmdId' p) =
     p @ frameTrailer (frameHeader (13 + length p) target seq flags' cmdSet' cmdId' @ p)"
  by (simp add: frameBytes_def Let_def)

lemma frameBytes_payload:
  assumes "length p \<le> 1011"
  shows "slice' (frameBytes target seq flags' cmdSet' cmdId' p) 11
           (lengthField (frameBytes target seq flags' cmdSet' cmdId' p) - 2) = p"
proof (cases "length p = 1011")
  case True
  then have lf: "lengthField (frameBytes target seq flags' cmdSet' cmdId' p) = 0"
    by (simp add: frameBytes_lengthField)
  show ?thesis
    using True
    by (simp add: lf slice'_def clampIndex_def frameBytes_length frameBytes_drop)
next
  case False
  with assms have "int (13 + length p) < 1024" by simp
  then have lf: "lengthField (frameBytes target seq flags' cmdSet' cmdId' p) = int (13 + length p)"
    by (simp add: frameBytes_lengthField)
  show ?thesis
    by (simp add: lf slice_nonneg frameBytes_drop)
qed

lemma parseMessage_frameBytes:
  assumes "length p \<le> 1011"
  shows "parseMessage (frameBytes target seq flags' cmdSet' cmdId' p) =
    Some \<lparr>length' = int (13 + length p) mod 1024,
          sender = target mod 256,
          receiver = drop_bit 8 target mod 256,
          msgId = (drop_bit 8 seq mod 256) * 256 + seq mod 256,
          flags = flags' mod 256,
          cmdSet = cmdSet' mod 256,
          cmdId = cmdId' mod 256,
          payload = p,
          raw = take (nat (int (13 + length p) mod 1024))
                  (frameBytes target seq flags' cmdSet' cmdId' p)\<rparr>"
proof -
  let ?f = "frameBytes target seq flags' cmdSet' cmdId' p"
  have le: "int (13 + length p) mod 1024 \<le> int (length ?f)"
    by (simp add: frameBytes_length zmod_le_nonneg_dividend)
  have u: "uint (word_of_int k :: u8) = k mod 256" for k
    by (simp add: uint_word_of_int)
  show ?thesis
    using le frameBytes_payload [OF assms, of target seq flags' cmdSet' cmdId']
    by (simp add: parseMessage_def Let_def frameBytes_length frameBytes_nth
        frameBytes_lengthField readUInt16BE_def u slice_zero)
qed

lemma u16_bytes:
  assumes "0 \<le> v" "v < 0x10000"
  shows "(drop_bit 8 v mod 256) * 256 + v mod 256 = (v :: int)"
    and "drop_bit 8 v mod 256 = v div 256"
  using assms by (simp_all add: drop_bit_eq_div)

lemma frameBytes_valid:
  assumes "length p \<le> 1010"
  shows "frameBytes target seq flags' cmdSet' cmdId' p ! 0 = 0x55"
    and "13 \<le> length (frameBytes target seq flags' cmdSet' cmdId' p)"
    and "lengthField (frameBytes target seq flags' cmdSet' cmdId' p) =
           int (length (frameBytes target seq flags' cmdSet' cmdId' p))"
    and "length (frameBytes target seq flags' cmdSet' cmdId' p) \<le> 1024"
  using assms by (simp_all add: frameBytes_nth frameBytes_length frameBytes_lengthField)

subsection \<open>One pass of the framer, and the loop\<close>

text \<open>A well-formed frame at the head of the buffer, after bytes that are not the magic.\<close>

lemma lengthField_append:
  "3 \<le> length f \<Longrightarrow> lengthField (f @ rest) = lengthField f"
  by (simp add: lengthField_def nth_append)

lemma resync:
  assumes "0x55 \<notin> set pre"
  shows "indexOf (pre @ 0x55 # rest) 0x55 = int (length pre)"
    and "(if indexOf (pre @ 0x55 # rest) 0x55 > 0
          then sliceFrom (pre @ 0x55 # rest) (indexOf (pre @ 0x55 # rest) 0x55)
          else pre @ 0x55 # rest) = 0x55 # rest"
proof -
  show i: "indexOf (pre @ 0x55 # rest) 0x55 = int (length pre)"
    using assms by (rule indexOf_prefix)
  show "(if indexOf (pre @ 0x55 # rest) 0x55 > 0
          then sliceFrom (pre @ 0x55 # rest) (indexOf (pre @ 0x55 # rest) 0x55)
          else pre @ 0x55 # rest) = 0x55 # rest"
    by (simp add: i sliceFrom_nonneg)
qed

lemma body_unfold:
  assumes "0x55 \<notin> set pre"
  shows "parseStream_body (messages, pre @ 0x55 # rest) =
      (let b1 = 0x55 # rest in
       if length b1 < 4 then Break (messages, b1)
       else if lengthField b1 < 13 \<or> lengthField b1 > 1024
         then Continue (messages, sliceFrom b1 1)
       else if int (length b1) < lengthField b1 then Break (messages, b1)
       else Continue
              (case parseMessage (slice' b1 0 (lengthField b1)) of
                 None \<Rightarrow> messages
               | Some msg \<Rightarrow> messages @ [msg],
               sliceFrom b1 (lengthField b1)))"
  using resync [OF assms, of rest]
  by (simp add: parseStream_body_def Let_def)

lemma body_spurious:
  assumes "0x55 \<notin> set pre" and "3 \<le> length rest"
    and "lengthField (0x55 # rest) < 13 \<or> lengthField (0x55 # rest) > 1024"
  shows "parseStream_body (messages, pre @ 0x55 # rest) = Continue (messages, rest)"
  using assms(2,3) by (simp add: body_unfold [OF assms(1)] Let_def sliceFrom_nonneg)

lemma body_frame:
  assumes "0x55 \<notin> set pre" and "f ! 0 = 0x55" and "13 \<le> length f"
    and "lengthField f = int (length f)" and "length f \<le> 1024"
  shows "\<exists>m. parseMessage f = Some m \<and> raw m = f \<and>
           parseStream_body (messages, pre @ f @ rest) = Continue (messages @ [m], rest)"
proof -
  from assms(2,3) obtain t where f: "f = 0x55 # t" by (cases f) auto
  have pm: "parseMessage f = Some \<lparr>length' = lengthField f,
                          sender = uint (f ! 4),
                          receiver = uint (f ! 5),
                          msgId = readUInt16BE f 6,
                          flags = uint (f ! 8),
                          cmdSet = uint (f ! 9),
                          cmdId = uint (f ! 10),
                          payload = slice' f 11 (lengthField f - 2),
                          raw = f\<rparr>"
    using assms(2-4) by (simp add: parseMessage_def Let_def slice_zero)
  have lf: "lengthField (f @ rest) = int (length f)"
    using assms(3,4) by (simp add: lengthField_append)
  have eq: "0x55 # (t @ rest) = f @ rest" by (simp add: f)
  note bu = body_unfold [OF assms(1), of messages "t @ rest", unfolded eq]
  have sl: "slice' (f @ rest) 0 (int (length f)) = f"
    and sf: "sliceFrom (f @ rest) (int (length f)) = rest"
    by (simp_all add: slice_zero sliceFrom_nonneg)
  have "parseStream_body (messages, pre @ f @ rest) =
      Continue (messages @ [the (parseMessage f)], rest)"
    using assms(3,5) by (simp add: bu Let_def lf sl sf pm)
  then show ?thesis using pm by simp
qed

lemma loop_short: "length b < 13 \<Longrightarrow> parseStream_loop (ms, b) = (ms, b)"
  by (simp add: parseStream_loop.simps)

lemma loop_continue:
  "13 \<le> length b \<Longrightarrow> parseStream_body (ms, b) = Continue st \<Longrightarrow>
     parseStream_loop (ms, b) = parseStream_loop st"
  by (simp add: parseStream_loop.simps [of "(ms, b)"])

lemma loop_break:
  "13 \<le> length b \<Longrightarrow> parseStream_body (ms, b) = Break r \<Longrightarrow>
     parseStream_loop (ms, b) = r"
  by (simp add: parseStream_loop.simps [of "(ms, b)"])

lemma loop_frame:
  assumes "0x55 \<notin> set pre" and "f ! 0 = 0x55" and "13 \<le> length f"
    and "lengthField f = int (length f)" and "length f \<le> 1024"
  shows "\<exists>m. parseMessage f = Some m \<and> raw m = f \<and>
           parseStream_loop (ms, pre @ f @ rest) = parseStream_loop (ms @ [m], rest)"
proof -
  obtain m where m: "parseMessage f = Some m" "raw m = f"
    "parseStream_body (ms, pre @ f @ rest) = Continue (ms @ [m], rest)"
    using body_frame [OF assms, of ms rest] by blast
  have "parseStream_loop (ms, pre @ f @ rest) = parseStream_loop (ms @ [m], rest)"
    using assms(3) by (intro loop_continue [OF _ m(3)]) simp
  with m show ?thesis by blast
qed

lemma parseStream_one_frame:
  assumes "0x55 \<notin> set pre" and "f ! 0 = 0x55" and "13 \<le> length f"
    and "lengthField f = int (length f)" and "length f \<le> 1024" and "length rest < 13"
  shows "\<exists>m. parseMessage f = Some m \<and> raw m = f \<and> parseStream (pre @ f @ rest) = ([m], rest)"
  using loop_frame [OF assms(1-5), of "[]" rest] assms(6)
  by (auto simp: parseStream_def loop_short)

text \<open>What one pass through the loop body does to the buffer.\<close>

lemma body_cases:
  assumes "13 \<le> length b"
  shows "(0x55 \<notin> set b \<and> parseStream_body (acc, b) = Break (acc, [])) \<or>
         (\<exists>pre b1. b = pre @ b1 \<and> 0x55 \<notin> set pre \<and> b1 \<noteq> [] \<and> b1 ! 0 = 0x55 \<and>
             (length b1 < 4 \<or> int (length b1) < lengthField b1) \<and>
             parseStream_body (acc, b) = Break (acc, b1)) \<or>
         (\<exists>pre rest. b = pre @ 0x55 # rest \<and> 0x55 \<notin> set pre \<and> 3 \<le> length rest \<and>
             (lengthField (0x55 # rest) < 13 \<or> lengthField (0x55 # rest) > 1024) \<and>
             parseStream_body (acc, b) = Continue (acc, rest)) \<or>
         (\<exists>pre f rest m. b = pre @ f @ rest \<and> 0x55 \<notin> set pre \<and>
             parseMessage f = Some m \<and> raw m = f \<and>
             f ! 0 = 0x55 \<and> 13 \<le> length f \<and> length f \<le> 1024 \<and>
             lengthField f = int (length f) \<and> length' m = int (length f) \<and>
             parseStream_body (acc, b) = Continue (acc @ [m], rest))"
proof (cases "0x55 \<in> set b")
  case False
  then have "indexOf b 0x55 = -1" by (simp add: indexOf_absent)
  then have "parseStream_body (acc, b) = Break (acc, [])"
    by (simp add: parseStream_body_def alloc_def)
  with False show ?thesis by blast
next
  case True
  then obtain pre rest where b: "b = pre @ 0x55 # rest" and pre: "0x55 \<notin> set pre"
    using split_list_first [of "0x55" b] by blast
  let ?b1 = "0x55 # rest"
  note bu = body_unfold [OF pre, of acc rest]
  consider (short) "length ?b1 < 4"
    | (spurious) "4 \<le> length ?b1" "lengthField ?b1 < 13 \<or> lengthField ?b1 > 1024"
    | (partial) "4 \<le> length ?b1" "13 \<le> lengthField ?b1" "lengthField ?b1 \<le> 1024"
        "int (length ?b1) < lengthField ?b1"
    | (frame) "4 \<le> length ?b1" "13 \<le> lengthField ?b1" "lengthField ?b1 \<le> 1024"
        "lengthField ?b1 \<le> int (length ?b1)"
    by linarith
  then show ?thesis
  proof cases
    case short
    then have "parseStream_body (acc, b) = Break (acc, ?b1)"
      by (simp add: bu b Let_def)
    moreover have "?b1 \<noteq> [] \<and> ?b1 ! 0 = 0x55" by simp
    ultimately show ?thesis using b pre short by blast
  next
    case spurious
    then have "3 \<le> length rest" by simp
    moreover from spurious have "parseStream_body (acc, b) = Continue (acc, rest)"
      using body_spurious [OF pre, of rest acc] by (simp add: b)
    ultimately show ?thesis using b pre spurious(2) by blast
  next
    case partial
    then have "parseStream_body (acc, b) = Break (acc, ?b1)"
      by (simp add: bu b Let_def)
    moreover have "?b1 \<noteq> [] \<and> ?b1 ! 0 = 0x55" by simp
    ultimately show ?thesis using b pre partial(4) by blast
  next
    case frame
    define n where "n = nat (lengthField ?b1)"
    define f where "f = take n ?b1"
    define rest' where "rest' = drop n ?b1"
    have n: "13 \<le> n" "n \<le> 1024" "n \<le> length ?b1" "int n = lengthField ?b1"
      using frame by (simp_all add: n_def)
    have split: "?b1 = f @ rest'" by (simp add: f_def rest'_def)
    have len_f: "length f = n" using n(3) by (simp add: f_def)
    have f0: "f ! 0 = 0x55" using n(1) by (simp add: f_def)
    have "lengthField (f @ rest') = lengthField f"
      using len_f n(1) by (intro lengthField_append) simp
    then have lf: "lengthField f = int (length f)"
      using n(4) len_f by (simp add: split [symmetric])
    obtain m where m: "parseMessage f = Some m" "raw m = f"
      "parseStream_body (acc, pre @ f @ rest') = Continue (acc @ [m], rest')"
      using body_frame [OF pre f0 _ lf, of acc rest'] n len_f by auto
    have "length' m = int (length f)"
      using m(1) f0 lf len_f n(1)
      by (auto simp: parseMessage_def Let_def split: if_splits)
    moreover have "b = pre @ f @ rest'" by (simp add: b split)
    ultimately show ?thesis using m f0 lf len_f n pre by blast
  qed
qed

lemma body_shapes:
  assumes "13 \<le> length b"
  shows "parseStream_body (acc, b) = Break (acc, []) \<or>
         (\<exists>pre b1. b = pre @ b1 \<and> parseStream_body (acc, b) = Break (acc, b1)) \<or>
         (\<exists>pre rest. b = pre @ 0x55 # rest \<and> parseStream_body (acc, b) = Continue (acc, rest)) \<or>
         (\<exists>pre f rest m. b = pre @ f @ rest \<and> parseMessage f = Some m \<and> raw m = f \<and>
             f ! 0 = 0x55 \<and> 13 \<le> length f \<and> length f \<le> 1024 \<and>
             lengthField f = int (length f) \<and> length' m = int (length f) \<and>
             parseStream_body (acc, b) = Continue (acc @ [m], rest))"
  using body_cases [OF assms, of acc] by blast

text \<open>
  \<open>inOrder b ms rem\<close>: the raw bytes of the messages \<open>ms\<close> lie in the buffer \<open>b\<close> one
  after the other, in the order of the list, each possibly after bytes that belong to
  no message, and \<open>rem\<close> is the end of the buffer.
\<close>

definition inOrder :: "buffer \<Rightarrow> message list \<Rightarrow> buffer \<Rightarrow> bool" where
  "inOrder b ms rem \<longleftrightarrow>
     (\<exists>gaps junk. length gaps = length ms \<and>
        b = concat (map2 (\<lambda>g m. g @ raw m) gaps ms) @ junk @ rem)"

text \<open>What the framer checks of a message before it appends it to its result.\<close>

definition surfaced :: "message \<Rightarrow> bool" where
  "surfaced m \<longleftrightarrow>
     raw m \<noteq> [] \<and> raw m ! 0 = 0x55 \<and> 13 \<le> length' m \<and> length' m \<le> 1024 \<and>
     lengthField (raw m) = length' m \<and> int (length (raw m)) = length' m"

lemma inOrder_Nil: "inOrder (junk @ rem) [] rem"
  unfolding inOrder_def by (intro exI [of _ "[]"] exI [of _ junk]) simp

lemma inOrder_skip:
  assumes "inOrder b ms rem"
  shows "inOrder (x @ b) ms rem"
proof -
  from assms obtain gaps junk where g: "length gaps = length ms"
    "b = concat (map2 (\<lambda>g m. g @ raw m) gaps ms) @ junk @ rem"
    unfolding inOrder_def by blast
  show ?thesis
  proof (cases ms)
    case Nil
    with g have "x @ b = (x @ junk) @ rem" by simp
    then show ?thesis unfolding Nil using inOrder_Nil [of "x @ junk" rem] by simp
  next
    case (Cons m ms')
    with g(1) obtain g0 gs where gaps: "gaps = g0 # gs" by (cases gaps) auto
    have "length ((x @ g0) # gs) = length ms" using g(1) gaps by simp
    moreover have "x @ b = concat (map2 (\<lambda>g m. g @ raw m) ((x @ g0) # gs) ms) @ junk @ rem"
      using g(2) gaps Cons by simp
    ultimately show ?thesis unfolding inOrder_def by blast
  qed
qed

lemma inOrder_Cons:
  assumes "inOrder b ms rem"
  shows "inOrder (pre @ raw m @ b) (m # ms) rem"
proof -
  from assms obtain gaps junk where g: "length gaps = length ms"
    "b = concat (map2 (\<lambda>g m. g @ raw m) gaps ms) @ junk @ rem"
    unfolding inOrder_def by blast
  have "length (pre # gaps) = length (m # ms)" using g(1) by simp
  moreover have "pre @ raw m @ b =
      concat (map2 (\<lambda>g m. g @ raw m) (pre # gaps) (m # ms)) @ junk @ rem"
    using g(2) by simp
  ultimately show ?thesis unfolding inOrder_def by blast
qed

lemma loop_invariant:
  "parseStream_loop (acc, b) = (ms, rem) \<Longrightarrow>
     \<exists>new. ms = acc @ new \<and> inOrder b new rem \<and> list_all surfaced new"
proof (induction "length b" arbitrary: acc b rule: less_induct)
  case less
  show ?case
  proof (cases "13 \<le> length b")
    case False
    then have "ms = acc" "rem = b" using less.prems by (simp_all add: loop_short)
    then show ?thesis using inOrder_Nil [of "[]" b] by simp
  next
    case True
    from body_shapes [OF True, of acc] show ?thesis
    proof (elim disjE exE conjE)
      assume "parseStream_body (acc, b) = Break (acc, [])"
      then have "ms = acc" "rem = []"
        using less.prems loop_break [OF True, of acc "(acc, [])"] by simp_all
      then show ?thesis using inOrder_Nil [of b "[]"] by simp
    next
      fix pre b1
      assume b: "b = pre @ b1" and "parseStream_body (acc, b) = Break (acc, b1)"
      then have "ms = acc" "rem = b1"
        using less.prems loop_break [OF True, of acc "(acc, b1)"] by simp_all
      then show ?thesis using inOrder_Nil [of pre b1] b by simp
    next
      fix pre rest
      assume b: "b = pre @ 0x55 # rest"
        and body: "parseStream_body (acc, b) = Continue (acc, rest)"
      have "parseStream_loop (acc, rest) = (ms, rem)"
        using less.prems loop_continue [OF True body] by simp
      moreover have "length rest < length b" by (simp add: b)
      ultimately obtain new where new: "ms = acc @ new" "inOrder rest new rem"
        "list_all surfaced new"
        using less.hyps by blast
      have "inOrder ((pre @ [0x55]) @ rest) new rem" using new(2) by (rule inOrder_skip)
      then show ?thesis using new b by simp
    next
      fix pre f rest m
      assume b: "b = pre @ f @ rest" and m: "parseMessage f = Some m" "raw m = f"
        and f: "f ! 0 = 0x55" "13 \<le> length f" "length f \<le> 1024"
          "lengthField f = int (length f)" "length' m = int (length f)"
        and body: "parseStream_body (acc, b) = Continue (acc @ [m], rest)"
      have "parseStream_loop (acc @ [m], rest) = (ms, rem)"
        using less.prems loop_continue [OF True body] by simp
      moreover have "length rest < length b" using f(2) by (auto simp: b)
      ultimately obtain new where new: "ms = (acc @ [m]) @ new" "inOrder rest new rem"
        "list_all surfaced new"
        using less.hyps by blast
      have "surfaced m" using m f by (auto simp: surfaced_def)
      moreover have "inOrder (pre @ raw m @ rest) (m # new) rem"
        using new(2) by (rule inOrder_Cons)
      ultimately show ?thesis using new b m(2) by simp
    qed
  qed
qed

lemma surfaced_not_oversize:
  assumes "lengthField f = 0"
  shows "f \<notin> set (map raw (fst (parseStream b)))"
proof
  assume "f \<in> set (map raw (fst (parseStream b)))"
  then obtain m where m: "m \<in> set (fst (parseStream b))" "raw m = f" by auto
  obtain ms rem where p: "parseStream_loop ([], b) = (ms, rem)" by (cases "parseStream_loop ([], b)")
  from loop_invariant [OF p] have "list_all surfaced ms" by simp
  with m p have "surfaced m" by (simp add: parseStream_def list_all_iff)
  then have "13 \<le> lengthField (raw m)" by (simp add: surfaced_def)
  with m(2) assms show False by simp
qed

lemma fuel_enough:
  "length b < n \<Longrightarrow> parseStream_fuel n (ms, b) = Some (parseStream_loop (ms, b))"
proof (induction n arbitrary: ms b)
  case 0
  then show ?case by simp
next
  case (Suc n)
  show ?case
  proof (cases "13 \<le> length b")
    case False
    then show ?thesis by (simp add: loop_short)
  next
    case True
    show ?thesis
    proof (cases "parseStream_body (ms, b)")
      case (Break r)
      then show ?thesis using True by (simp add: loop_break)
    next
      case (Continue st)
      obtain ms' b' where st: "st = (ms', b')" by (cases st)
      have "length b' < length b"
        using parseStream_body_decreases [OF True] Continue st by simp
      with Suc.prems have "length b' < n" by simp
      then have "parseStream_fuel n (ms', b') = Some (parseStream_loop (ms', b'))"
        by (rule Suc.IH)
      then show ?thesis
        using True Continue st loop_continue [OF True, of ms st] by simp
    qed
  qed
qed

subsection \<open>Decoding and the checksum bytes\<close>

text \<open>Two messages agree on every field that \<^verbatim>\<open>parseMessage\<close> decodes, \<open>raw\<close> apart.\<close>

definition sameFields :: "message \<Rightarrow> message \<Rightarrow> bool" where
  "sameFields m m' \<longleftrightarrow>
     length' m = length' m' \<and> sender m = sender m' \<and> receiver m = receiver m' \<and>
     msgId m = msgId m' \<and> flags m = flags m' \<and> cmdSet m = cmdSet m' \<and>
     cmdId m = cmdId m' \<and> payload m = payload m'"

lemma lengthField_update: "3 \<le> i \<Longrightarrow> lengthField (data[i := v]) = lengthField data"
  by (simp add: lengthField_def)

lemma parseMessage_Some:
  assumes "13 \<le> length data" and "data ! 0 = 0x55" and "lengthField data \<le> int (length data)"
  shows "parseMessage data =
    Some \<lparr>length' = lengthField data, sender = uint (data ! 4), receiver = uint (data ! 5),
          msgId = readUInt16BE data 6, flags = uint (data ! 8), cmdSet = uint (data ! 9),
          cmdId = uint (data ! 10), payload = slice' data 11 (lengthField data - 2),
          raw = slice' data 0 (lengthField data)\<rparr>"
  using assms by (simp add: parseMessage_def Let_def)

lemma clampIndex_update: "clampIndex (data[i := v]) x = clampIndex data x"
  by (simp add: clampIndex_def)

lemma slice_payload_update:
  assumes "13 \<le> length data" and "i < 11 \<or> (0 \<le> e \<and> nat e \<le> i)"
  shows "slice' (data[i := v]) 11 e = slice' data 11 e"
proof -
  have s: "clampIndex data 11 = 11" using assms(1) by (simp add: clampIndex_def)
  have "take (clampIndex data e - 11) (drop 11 (data[i := v])) =
        take (clampIndex data e - 11) (drop 11 data)"
  proof (cases "i < 11")
    case True
    then show ?thesis by simp
  next
    case False
    with assms(2) have e: "0 \<le> e" "nat e \<le> i" by auto
    have "clampIndex data e \<le> i" using e by (simp add: clampIndex_nonneg)
    then show ?thesis using False by (simp add: drop_update_swap)
  qed
  then show ?thesis by (simp add: slice'_def Let_def clampIndex_update s)
qed

subsection \<open>The pairing routine\<close>

text \<open>A message sets the paired flag when \<^verbatim>\<open>_handleMessage\<close> sets it on a fresh connection.\<close>

definition setsPaired :: "message option \<Rightarrow> bool" where
  "setsPaired msg' = paired (handleMessage msg' newConnection)"

lemma emit_simps [simp]:
  "paired (emit e c) = paired c" "emitted (emit e c) = emitted c @ [e]"
  by (simp_all add: emit_def)

lemma handleMessage_effect:
  "paired (handleMessage m c) = (paired c \<or> setsPaired m) \<and>
   (\<exists>evs. emitted (handleMessage m c) = emitted c @ evs \<and>
      (\<not> setsPaired m \<longrightarrow> (\<forall>b. EvPaired b \<notin> set evs)))"
  by (cases m)
    (auto simp: handleMessage_def gimbal_handleMessage_def setsPaired_def Let_def newConnection_def)

lemma deliver_effect:
  "paired (deliver msgs c) = (paired c \<or> (\<exists>m \<in> set msgs. setsPaired m)) \<and>
   (\<exists>evs. emitted (deliver msgs c) = emitted c @ evs \<and>
      ((\<forall>m \<in> set msgs. \<not> setsPaired m) \<longrightarrow> (\<forall>b. EvPaired b \<notin> set evs)))"
proof (induction msgs arbitrary: c)
  case Nil
  then show ?case by (simp add: deliver_def)
next
  case (Cons m msgs)
  have d: "deliver (m # msgs) c = deliver msgs (handleMessage m c)"
    by (simp add: deliver_def)
  obtain e1 where e1: "emitted (handleMessage m c) = emitted c @ e1"
    "\<not> setsPaired m \<longrightarrow> (\<forall>b. EvPaired b \<notin> set e1)"
    using handleMessage_effect [of m c] by blast
  obtain e2 where e2: "emitted (deliver msgs (handleMessage m c)) = emitted (handleMessage m c) @ e2"
    "(\<forall>m \<in> set msgs. \<not> setsPaired m) \<longrightarrow> (\<forall>b. EvPaired b \<notin> set e2)"
    using Cons.IH [of "handleMessage m c"] by blast
  have "emitted (deliver (m # msgs) c) = emitted c @ (e1 @ e2)"
    by (simp add: d e1 e2)
  moreover have "(\<forall>m' \<in> set (m # msgs). \<not> setsPaired m') \<longrightarrow> (\<forall>b. EvPaired b \<notin> set (e1 @ e2))"
    using e1(2) e2(2) by auto
  moreover have "paired (deliver (m # msgs) c) = (paired c \<or> (\<exists>m' \<in> set (m # msgs). setsPaired m'))"
    using Cons.IH [of "handleMessage m c"] handleMessage_effect [of m c] by (auto simp: d)
  ultimately show ?case by blast
qed

lemma pollLoop_timeout:
  assumes "\<not> paired c" and "i \<le> 30"
    and "\<forall>j<30. \<forall>m \<in> set (arrivals env (2 + j)). \<not> setsPaired m"
  shows "\<exists>c' evs. pollLoop env i c = (c', 30) \<and> \<not> paired c' \<and>
           emitted c' = emitted c @ evs \<and> (\<forall>b. EvPaired b \<notin> set evs)"
  using assms(1,2)
proof (induction "30 - i" arbitrary: i c)
  case 0
  then have "i = 30" by simp
  then have "pollLoop env i c = (c, 30)" by (simp add: pollLoop.simps [of env 30 c])
  with 0 show ?case by simp
next
  case (Suc n)
  then have i: "i < 30" by simp
  define d where "d = deliver (arrivals env (2 + i)) c"
  have none: "\<forall>m \<in> set (arrivals env (2 + i)). \<not> setsPaired m"
    using assms(3) i by blast
  obtain e1 where e1: "emitted d = emitted c @ e1" "\<forall>b. EvPaired b \<notin> set e1"
    and p1: "\<not> paired d"
    unfolding d_def
    using deliver_effect [of "arrivals env (2 + i)" c] none Suc.prems(1) by blast
  have "n = 30 - (i + 1)" using Suc.hyps(2) by simp
  from Suc.hyps(1) [OF this p1] i
  obtain c' e2 where c': "pollLoop env (i + 1) d = (c', 30)" "\<not> paired c'"
    "emitted c' = emitted d @ e2" "\<forall>b. EvPaired b \<notin> set e2"
    by auto
  have "pollLoop env i c = pollLoop env (i + 1) d"
    using i Suc.prems(1) unfolding d_def by (subst pollLoop.simps) simp
  then have "pollLoop env i c = (c', 30)" by (simp only: c'(1))
  moreover have "emitted c' = emitted c @ (e1 @ e2)" by (simp add: c'(3) e1(1))
  moreover have "\<forall>b. EvPaired b \<notin> set (e1 @ e2)" using e1(2) c'(4) by simp
  ultimately show ?case using c'(2) by blast
qed

section \<open>Evaluated examples\<close>

text \<open>The bytes of three frames built from the initial sequence value, evaluated.\<close>

lemma frame13:
  "frameBytes 0x0402 0x0100 0x40 0x04 0x05 [] =
     [0x55, 0x0D, 0x04, 0x33, 0x02, 0x04, 0x01, 0x00, 0x40, 0x04, 0x05, 0x0A, 0xDE]"
  by code_simp

lemma frame16:
  "frameBytes 0x0402 0x0100 0x40 0x04 0x05 [1, 0x55, 2] =
     [0x55, 0x10, 0x04, 0x56, 0x02, 0x04, 0x01, 0x00, 0x40, 0x04, 0x05, 1, 0x55, 2, 0x3A, 0x22]"
  by code_simp

lemma frame20:
  "frameBytes 0x0402 0x0100 0x40 0x04 0x05 [1, 2, 3, 4, 5, 6, 7] =
     [0x55, 0x14, 0x04, 0x6D, 0x02, 0x04, 0x01, 0x00, 0x40, 0x04, 0x05,
      1, 2, 3, 4, 5, 6, 7, 0x18, 0x3C]"
  by code_simp

lemma frame13_lengthField:
  "lengthField [0x55, 0x0D, 0x04, 0x33, 0x02, 0x04, 0x01, 0x00, 0x40, 0x04, 0x05, 0x0A, 0xDE] = 13"
  by code_simp

lemma frame16_lengthField:
  "lengthField [0x55, 0x10, 0x04, 0x56, 0x02, 0x04, 0x01, 0x00, 0x40, 0x04, 0x05, 1, 0x55, 2, 0x3A, 0x22] = 16"
  by code_simp

lemma spurious_lengthField:
  "lengthField [0x55, 0x05, 0x00, 0x55, 0x0D, 0x04, 0x33, 0x02, 0x04, 0x01, 0x00, 0x40, 0x04, 0x05, 0x0A, 0xDE] = 5"
  by code_simp

text \<open>
  A stream for evaluation: two bytes of noise, the 13-byte frame, a stray magic byte
  whose length field reads 5, the 16-byte frame whose payload holds \<open>0x55\<close>, and the
  first two bytes of a further frame.
\<close>

definition exampleStream :: buffer where
  "exampleStream =
     [0xAA, 0xBB] @
     [0x55, 0x0D, 0x04, 0x33, 0x02, 0x04, 0x01, 0x00, 0x40, 0x04, 0x05, 0x0A, 0xDE] @
     [0x55, 0x05, 0x00] @
     [0x55, 0x10, 0x04, 0x56, 0x02, 0x04, 0x01, 0x00, 0x40, 0x04, 0x05, 1, 0x55, 2, 0x3A, 0x22] @
     [0x55, 0x20]"

definition exampleMessage13 :: message where
  "exampleMessage13 =
     \<lparr>length' = 13, sender = 2, receiver = 4, msgId = 0x0100, flags = 0x40, cmdSet = 4,
      cmdId = 5, payload = [],
      raw = [0x55, 0x0D, 0x04, 0x33, 0x02, 0x04, 0x01, 0x00, 0x40, 0x04, 0x05, 0x0A, 0xDE]\<rparr>"

definition exampleMessage16 :: message where
  "exampleMessage16 =
     \<lparr>length' = 16, sender = 2, receiver = 4, msgId = 0x0100, flags = 0x40, cmdSet = 4,
      cmdId = 5, payload = [1, 0x55, 2],
      raw = [0x55, 0x10, 0x04, 0x56, 0x02, 0x04, 0x01, 0x00, 0x40, 0x04, 0x05,
             1, 0x55, 2, 0x3A, 0x22]\<rparr>"

lemma stream_example:
  "parseStream exampleStream = ([exampleMessage13, exampleMessage16], [0x55, 0x20])"
  by code_simp

lemma body_example:
  "parseStream_body ([], exampleStream) =
     Continue ([exampleMessage13],
       [0x55, 0x05, 0x00] @
       [0x55, 0x10, 0x04, 0x56, 0x02, 0x04, 0x01, 0x00, 0x40, 0x04, 0x05, 1, 0x55, 2, 0x3A, 0x22] @
       [0x55, 0x20])"
  by code_simp

lemma exampleStream_length: "length exampleStream = 36"
  by (simp add: exampleStream_def)

text \<open>
  A run for evaluation: both writes succeed, and during the second delay of the polling
  loop the device answers that pairing must be approved on its screen (status 2) and
  reports its battery level; nothing else arrives. The two messages are what
  \<^verbatim>\<open>parseStream\<close> makes of the bytes of their frames. Identifier and PIN are the
  defaults of \<^verbatim>\<open>constants.mjs\<close>, \<open>001749319286102\<close> and \<open>love\<close>, as bytes.
\<close>

definition DEFAULT_IDENTIFIER :: buffer where
  "DEFAULT_IDENTIFIER =
     [0x30, 0x30, 0x31, 0x37, 0x34, 0x39, 0x33, 0x31, 0x39, 0x32, 0x38, 0x36, 0x31, 0x30, 0x32]"

definition DEFAULT_PIN :: buffer where
  "DEFAULT_PIN = [0x6C, 0x6F, 0x76, 0x65]"

definition exampleArrival :: "message option list" where
  "exampleArrival =
     map Some (fst (parseStream
       (frameBytes 0x0207 0x0005 0xC0 0x07 0x45 [0x00, 0x02] @
        frameBytes 0x0207 0x0006 0x00 0x06 0x01 [80])))"

definition exampleEnvironment :: environment where
  "exampleEnvironment =
     \<lparr>writeFff4Result = None, writeResult = None,
      arrivals = (\<lambda>k. if k = 3 then exampleArrival else [])\<rparr>"

lemma exampleArrival_eval:
  "exampleArrival =
     [Some \<lparr>length' = 15, sender = 7, receiver = 2, msgId = 5, flags = 0xC0, cmdSet = 7,
            cmdId = 0x45, payload = [0x00, 0x02],
            raw = frameBytes 0x0207 0x0005 0xC0 0x07 0x45 [0x00, 0x02]\<rparr>,
      Some \<lparr>length' = 14, sender = 7, receiver = 2, msgId = 6, flags = 0x00, cmdSet = 6,
            cmdId = 0x01, payload = [80],
            raw = frameBytes 0x0207 0x0006 0x00 0x06 0x01 [80]\<rparr>]"
  by code_simp

lemma exampleArrival_quiet: "\<forall>m \<in> set exampleArrival. \<not> setsPaired m"
  by (simp add: exampleArrival_eval setsPaired_def handleMessage_def byteAt_def Let_def
      newConnection_def)

lemma sent_example:
  "sendCredentials exampleEnvironment DEFAULT_IDENTIFIER DEFAULT_PIN
      (newConnection, initialCodec) =
      (Inr (frameBytes 0x0702 0x0100 0x40 0x07 0x45
              (packString DEFAULT_IDENTIFIER @ packString DEFAULT_PIN)),
       emit EvPairing newConnection, \<lparr>msgSeq = 0x0101\<rparr>)"
    by (simp add: sendCredentials_def exampleEnvironment_def buildMessage_cases initialCodec_def
        payloadBytes_def deliver_def)

lemma pair_example:
  "pair exampleEnvironment DEFAULT_IDENTIFIER DEFAULT_PIN (newConnection, initialCodec) =
     (Inr False,
      \<lparr>paired = False, battery = Some 80,
        gimbal = \<lparr>pitch10 = 0, roll10 = 0, yaw10 = 0, mode = None\<rparr>,
        emitted = [EvPairing, EvPairingRequired, EvBattery 80, EvPairingTimeout]\<rparr>,
      \<lparr>msgSeq = 0x0101\<rparr>, 30)"
  unfolding pair_def sent_example
  by (simp add: pollLoop.simps exampleEnvironment_def exampleArrival_eval
      deliver_def handleMessage_def byteAt_def Let_def newConnection_def emit_def)

section \<open>The properties C1 to C10\<close>

subsection \<open>C1: round trip\<close>

text \<open>
  C1: for every target below \<open>0x10000\<close>, flags in \<open>{0x40, 0xC0, 0x00}\<close>, command
  set and command id that are bytes, payload of at most 1011 bytes, and every value
  \<open>0..0xFFFF\<close> of the 16-bit sequence counter, \<^verbatim>\<open>buildMessage\<close> returns a frame
  that \<^verbatim>\<open>parseMessage\<close> decodes to a message whose sender and receiver are the low
  and the high byte of the target, whose flags, command set, command id and payload are
  the inputs, and whose message id is the value the generator held before the call. The
  payload of 1011 bytes is included: the length field of its frame reads \<open>0\<close>, and
  \<^verbatim>\<open>data.slice(11, -2)\<close> is the payload all the same. What the counter does past
  \<open>0xFFFF\<close> is the matter of C2.
\<close>

theorem C1_roundtrip:
  assumes "0 \<le> target" and "target < 0x10000"
    and "flags' \<in> {0x40, 0xC0, 0x00}"
    and "0 \<le> cmdSet'" and "cmdSet' < 256"
    and "0 \<le> cmdId'" and "cmdId' < 256"
    and "length p \<le> 1011"
    and "0 \<le> msgSeq s" and "msgSeq s < 0x10000"
  shows "\<exists>frame s' m.
           buildMessage s target flags' cmdSet' cmdId' (Some p) = (Inr frame, s') \<and>
           parseMessage frame = Some m \<and>
           sender m = target mod 256 \<and> receiver m = target div 256 \<and>
           flags m = flags' \<and> cmdSet m = cmdSet' \<and> cmdId m = cmdId' \<and>
           payload m = p \<and> msgId m = msgSeq s"
proof -
  have built: "buildMessage s target flags' cmdSet' cmdId' (Some p) =
      (Inr (frameBytes target (msgSeq s) flags' cmdSet' cmdId' p), s\<lparr>msgSeq := msgSeq s + 1\<rparr>)"
    using assms by (intro buildMessage_ok) simp_all
  have fl: "flags' mod 256 = flags'" using assms(3) by auto
  show ?thesis
    using assms u16_bytes [of target] u16_bytes [of "msgSeq s"]
    by (simp add: built parseMessage_frameBytes fl)
qed

theorem C1_roundtrip_witness:
  "\<exists>frame s' m.
     buildMessage initialCodec 0x0402 0x40 0x04 0x05 (Some [1, 2, 0x55]) = (Inr frame, s') \<and>
     parseMessage frame = Some m \<and>
     sender m = 0x02 \<and> receiver m = 0x04 \<and>
     flags m = 0x40 \<and> cmdSet m = 0x04 \<and> cmdId m = 0x05 \<and>
     payload m = [1, 2, 0x55] \<and> msgId m = 0x0100"
  using C1_roundtrip [of "0x0402" "0x40" "0x04" "0x05" "[1, 2, 0x55]" initialCodec]
  by (simp add: initialCodec_def)

subsection \<open>C2: sequence ids\<close>

text \<open>
  C2: after \<^verbatim>\<open>resetSequence(0x0100)\<close> consecutive \<^verbatim>\<open>buildMessage\<close> calls carry the
  sequence ids \<open>0x0100\<close>, \<open>0x0101\<close>, and so on; and, C2 goes on, after a call
  carries \<open>0xFFFF\<close> the next one carries \<open>0x0000\<close>. The code is evaluated here on
  both parts. The ids do count up by one. After the call that carries \<open>0xFFFF\<close> the
  counter holds \<open>0x10000\<close>, and the next call throws the RangeError of
  \<^verbatim>\<open>writeUInt16BE\<close> instead of returning a frame with id \<open>0x0000\<close>: the counter
  does not wrap.
\<close>

theorem C2_no_wraparound:
  "buildMessage (resetSequence (Some 0x0100) initialCodec) 0x0402 0x40 0x04 0x05 (Some []) =
     (Inr (frameBytes 0x0402 0x0100 0x40 0x04 0x05 []), \<lparr>msgSeq = 0x0101\<rparr>) \<and>
   buildMessage \<lparr>msgSeq = 0x0101\<rparr> 0x0402 0x40 0x04 0x05 (Some []) =
     (Inr (frameBytes 0x0402 0x0101 0x40 0x04 0x05 []), \<lparr>msgSeq = 0x0102\<rparr>) \<and>
   map_option msgId (parseMessage (frameBytes 0x0402 0x0100 0x40 0x04 0x05 [])) = Some 0x0100 \<and>
   map_option msgId (parseMessage (frameBytes 0x0402 0x0101 0x40 0x04 0x05 [])) = Some 0x0101 \<and>
   buildMessage (resetSequence (Some 0xFFFF) initialCodec) 0x0402 0x40 0x04 0x05 (Some []) =
     (Inr (frameBytes 0x0402 0xFFFF 0x40 0x04 0x05 []), \<lparr>msgSeq = 0x10000\<rparr>) \<and>
   map_option msgId (parseMessage (frameBytes 0x0402 0xFFFF 0x40 0x04 0x05 [])) = Some 0xFFFF \<and>
   buildMessage \<lparr>msgSeq = 0x10000\<rparr> 0x0402 0x40 0x04 0x05 (Some []) =
     (Inl RangeError, \<lparr>msgSeq = 0x10001\<rparr>)"
  by (simp add: buildMessage_cases resetSequence_def initialCodec_def payloadBytes_def
      parseMessage_frameBytes drop_bit_eq_div)

subsection \<open>C3: length of the encoded frame\<close>

text \<open>
  C3, as stated, includes payloads of 1011 bytes. The frame then has 1024 bytes, which
  the ten bits of the length field cannot hold: the field reads \<open>0\<close>.
\<close>

theorem C3_length_field_1011:
  "buildMessage initialCodec 0x0402 0x40 0x04 0x05 (Some (replicate 1011 0)) =
     (Inr (frameBytes 0x0402 0x0100 0x40 0x04 0x05 (replicate 1011 0)), \<lparr>msgSeq = 0x0101\<rparr>) \<and>
   length (frameBytes 0x0402 0x0100 0x40 0x04 0x05 (replicate 1011 0)) = 1024 \<and>
   lengthField (frameBytes 0x0402 0x0100 0x40 0x04 0x05 (replicate 1011 0)) = 0"
  by (simp add: buildMessage_cases initialCodec_def payloadBytes_def
      frameBytes_length frameBytes_lengthField)

text \<open>
  C3 (amended): for every payload of at most 1011 bytes (target and generator value in
  \<open>0..0xFFFF\<close>), \<^verbatim>\<open>buildMessage\<close> returns a buffer of exactly
  \<open>13 + length payload\<close> bytes whose byte 0 is \<open>0x55\<close> and whose length field is
  \<open>(13 + length payload) mod 1024\<close>; for a payload of at most 1010 bytes that is
  \<open>13 + length payload\<close>, read from bytes 1 and 2 and as decoded by
  \<^verbatim>\<open>parseMessage\<close>. The instance proved after it is the zero-payload frame of
  C3: 13 bytes, byte 0 \<open>0x55\<close>, decoded length 13.
\<close>

theorem C3_length_exact:
  assumes "0 \<le> target" and "target < 0x10000"
    and "0 \<le> msgSeq s" and "msgSeq s < 0x10000"
    and "length p \<le> 1011"
  shows "\<exists>frame s'.
           buildMessage s target flags' cmdSet' cmdId' (Some p) = (Inr frame, s') \<and>
           length frame = 13 + length p \<and> frame ! 0 = 0x55 \<and>
           lengthField frame = int (13 + length p) mod 1024 \<and>
           (length p \<le> 1010 \<longrightarrow>
              lengthField frame = int (13 + length p) \<and>
              map_option length' (parseMessage frame) = Some (int (13 + length p)))"
proof -
  let ?f = "frameBytes target (msgSeq s) flags' cmdSet' cmdId' p"
  have "buildMessage s target flags' cmdSet' cmdId' (Some p) = (Inr ?f, s\<lparr>msgSeq := msgSeq s + 1\<rparr>)"
    using assms(1-4) by (simp add: buildMessage_cases payloadBytes_def)
  moreover have "length ?f = 13 + length p" by (rule frameBytes_length)
  moreover have "?f ! 0 = 0x55" by (rule frameBytes_nth)
  moreover have "lengthField ?f = int (13 + length p) mod 1024"
    by (rule frameBytes_lengthField)
  moreover have "lengthField ?f = int (13 + length p)" if "length p \<le> 1010"
    using that by (simp add: frameBytes_lengthField)
  moreover have "map_option length' (parseMessage ?f) = Some (int (13 + length p))"
    if "length p \<le> 1010"
    using that by (simp add: parseMessage_frameBytes)
  ultimately show ?thesis by blast
qed

theorem C3_zero_payload_witness:
  "\<exists>frame s'.
     buildMessage initialCodec 0x0402 0x40 0x04 0x05 (Some []) = (Inr frame, s') \<and>
     length frame = 13 \<and> frame ! 0 = 0x55 \<and> lengthField frame = 13 \<and>
     map_option length' (parseMessage frame) = Some 13"
  using C3_length_exact [of "0x0402" initialCodec "[]" "0x40" "0x04" "0x05"]
  by (simp add: initialCodec_def)

subsection \<open>C4: a magic byte inside the payload\<close>

text \<open>
  C4: a valid frame begins with the magic byte, has at least 13 bytes, and has a length
  field equal to its byte count (so it has at most 1023 bytes, the most that ten bits
  hold). For every such frame, whatever the bytes after its header and so also when its
  payload contains \<open>0x55\<close>, \<^verbatim>\<open>parseStream\<close> on the frame yields exactly one message,
  whose raw bytes are the whole frame and which is the decoding of the frame, and an
  empty remainder. The frames that \<^verbatim>\<open>buildMessage\<close> returns for payloads of at most
  1010 bytes that contain \<open>0x55\<close> are such frames, and the one message has the payload
  as its payload. The reason, for one pass of the loop: when the bytes from the first
  magic byte on begin with a frame whose length field is in bounds and equal to its
  length, exactly that frame is consumed and decoded and the loop continues with what
  follows it; and when the first magic byte is followed by a length field below 13 or
  above 1024, the pass discards that magic byte (1 byte, after the bytes before it) and
  the loop rescans what follows.
\<close>

theorem C4_single_frame:
  "(f ! 0 = 0x55 \<and> 13 \<le> length f \<and> lengthField f = int (length f) \<longrightarrow>
      (\<exists>m. parseStream f = ([m], []) \<and> raw m = f \<and> parseMessage f = Some m)) \<and>
   (buildMessage s target flags' cmdSet' cmdId' (Some p) = (Inr frame, s') \<and>
      length p \<le> 1010 \<and> 0x55 \<in> set p \<longrightarrow>
      frame ! 0 = 0x55 \<and> 13 \<le> length frame \<and> lengthField frame = int (length frame) \<and>
      (\<exists>m. parseStream frame = ([m], []) \<and> raw m = frame \<and> payload m = p)) \<and>
   (0x55 \<notin> set pre \<and> g ! 0 = 0x55 \<and> 13 \<le> length g \<and> length g \<le> 1024 \<and>
      lengthField g = int (length g) \<longrightarrow>
      (\<exists>m. parseMessage g = Some m \<and> raw m = g \<and>
         parseStream_body (messages, pre @ g @ rest) = Continue (messages @ [m], rest))) \<and>
   (0x55 \<notin> set pre' \<and> 3 \<le> length rest' \<and>
      (lengthField (0x55 # rest') < 13 \<or> lengthField (0x55 # rest') > 1024) \<longrightarrow>
      parseStream_body (messages, pre' @ 0x55 # rest') = Continue (messages, rest'))"
proof -
  have valid: "\<exists>m. parseStream f = ([m], []) \<and> raw m = f \<and> parseMessage f = Some m"
    if a: "f ! 0 = 0x55 \<and> 13 \<le> length f \<and> lengthField f = int (length f)"
  proof -
    have "lengthField f < 1024" using lengthField_range [of f] by simp
    with a have "length f \<le> 1024" by linarith
    with a show ?thesis
      using parseStream_one_frame [of "[]" f "[]"] by auto
  qed
  have built: "frame ! 0 = 0x55 \<and> 13 \<le> length frame \<and> lengthField frame = int (length frame) \<and>
      (\<exists>m. parseStream frame = ([m], []) \<and> raw m = frame \<and> payload m = p)"
    if a: "buildMessage s target flags' cmdSet' cmdId' (Some p) = (Inr frame, s') \<and>
      length p \<le> 1010 \<and> 0x55 \<in> set p"
  proof -
    from a have frame: "frame = frameBytes target (msgSeq s) flags' cmdSet' cmdId' p"
      using buildMessage_Inr(1) [of s target flags' cmdSet' cmdId' "Some p" frame s']
      by (simp add: payloadBytes_def)
    from a have len: "length p \<le> 1010" by simp
    note v = frameBytes_valid [OF len, of target "msgSeq s" flags' cmdSet' cmdId', folded frame]
    obtain m where m: "parseMessage frame = Some m" "raw m = frame"
      "parseStream ([] @ frame @ []) = ([m], [])"
      using parseStream_one_frame [OF _ v, of "[]" "[]"] by auto
    have "payload m = p"
      using m(1) len by (auto simp: frame parseMessage_frameBytes)
    with m v(1-3) show ?thesis by auto
  qed
  have pass: "\<exists>m. parseMessage g = Some m \<and> raw m = g \<and>
         parseStream_body (messages, pre @ g @ rest) = Continue (messages @ [m], rest)"
    if "0x55 \<notin> set pre \<and> g ! 0 = 0x55 \<and> 13 \<le> length g \<and> length g \<le> 1024 \<and>
      lengthField g = int (length g)"
    using that body_frame [of pre g messages rest] by blast
  have spurious: "parseStream_body (messages, pre' @ 0x55 # rest') = Continue (messages, rest')"
    if "0x55 \<notin> set pre' \<and> 3 \<le> length rest' \<and>
      (lengthField (0x55 # rest') < 13 \<or> lengthField (0x55 # rest') > 1024)"
    using that body_spurious [of pre' rest' messages] by blast
  from valid built pass spurious show ?thesis by blast
qed

theorem C4_single_frame_witness:
  "(\<exists>m. parseStream
          [0x55, 0x10, 0x04, 0x56, 0x02, 0x04, 0x01, 0x00, 0x40, 0x04, 0x05, 1, 0x55, 2, 0x3A, 0x22] =
          ([m], []) \<and>
        raw m = [0x55, 0x10, 0x04, 0x56, 0x02, 0x04, 0x01, 0x00, 0x40, 0x04, 0x05, 1, 0x55, 2, 0x3A, 0x22] \<and>
        parseMessage
          [0x55, 0x10, 0x04, 0x56, 0x02, 0x04, 0x01, 0x00, 0x40, 0x04, 0x05, 1, 0x55, 2, 0x3A, 0x22] =
          Some m \<and>
        payload m = [1, 0x55, 2]) \<and>
   (\<exists>m. parseMessage
          [0x55, 0x10, 0x04, 0x56, 0x02, 0x04, 0x01, 0x00, 0x40, 0x04, 0x05, 1, 0x55, 2, 0x3A, 0x22] =
          Some m \<and>
        raw m = [0x55, 0x10, 0x04, 0x56, 0x02, 0x04, 0x01, 0x00, 0x40, 0x04, 0x05, 1, 0x55, 2, 0x3A, 0x22] \<and>
        parseStream_body
          ([], [0xAA] @
               [0x55, 0x10, 0x04, 0x56, 0x02, 0x04, 0x01, 0x00, 0x40, 0x04, 0x05, 1, 0x55, 2, 0x3A, 0x22] @
               [0x55, 0x0D]) =
          Continue ([m], [0x55, 0x0D])) \<and>
   parseStream_body
     ([], [0x55, 0x05, 0x00, 0x55, 0x0D, 0x04, 0x33, 0x02, 0x04, 0x01, 0x00, 0x40, 0x04, 0x05, 0x0A, 0xDE]) =
     Continue ([], [0x05, 0x00, 0x55, 0x0D, 0x04, 0x33, 0x02, 0x04, 0x01, 0x00, 0x40, 0x04, 0x05, 0x0A, 0xDE])"
  using C4_single_frame [where f = "frameBytes 0x0402 0x0100 0x40 0x04 0x05 [1, 0x55, 2]"
      and s = initialCodec and target = "0x0402" and flags' = "0x40" and cmdSet' = "0x04"
      and cmdId' = "0x05" and p = "[1, 0x55, 2]"
      and frame = "frameBytes 0x0402 0x0100 0x40 0x04 0x05 [1, 0x55, 2]"
      and s' = "\<lparr>msgSeq = 0x0101\<rparr>"
      and pre = "[0xAA]" and g = "frameBytes 0x0402 0x0100 0x40 0x04 0x05 [1, 0x55, 2]"
      and messages = "[]" and rest = "[0x55, 0x0D]" and pre' = "[]"
      and rest' = "[0x05, 0x00, 0x55, 0x0D, 0x04, 0x33, 0x02, 0x04, 0x01, 0x00, 0x40, 0x04, 0x05, 0x0A, 0xDE]"]
    frame16_lengthField spurious_lengthField
  by (auto simp: buildMessage_cases initialCodec_def payloadBytes_def frame16)

subsection \<open>C5: partial delivery\<close>

text \<open>
  C5: for every 20-byte frame that \<^verbatim>\<open>buildMessage\<close> returns, \<^verbatim>\<open>parseStream\<close> on
  its first 5 bytes yields no message and those 5 bytes as the remainder; on that
  remainder followed by the other 15 bytes it yields exactly one message, whose raw
  bytes are the frame, and an empty remainder. The transport's \<^verbatim>\<open>_processIncoming\<close>,
  fed the two chunks from an empty receive buffer, does the same.
\<close>

theorem C5_partial_delivery:
  assumes "buildMessage s target flags' cmdSet' cmdId' payload' = (Inr frame, s')"
    and "length frame = 20"
  shows "parseStream (take 5 frame) = ([], take 5 frame) \<and>
         (\<exists>m. parseStream (snd (parseStream (take 5 frame)) @ drop 5 frame) = ([m], []) \<and>
              raw m = frame \<and>
              processIncoming (snd (processIncoming [] (take 5 frame))) (drop 5 frame) = ([m], []))"
proof -
  let ?p = "payloadBytes payload'"
  have frame: "frame = frameBytes target (msgSeq s) flags' cmdSet' cmdId' ?p"
    using assms(1) by (rule buildMessage_Inr)
  with assms(2) have "length ?p = 7" by (simp add: frameBytes_length)
  then have "length ?p \<le> 1010" by simp
  note v = frameBytes_valid [OF this, of target "msgSeq s" flags' cmdSet' cmdId', folded frame]
  have first: "parseStream (take 5 frame) = ([], take 5 frame)"
    using assms(2) by (simp add: parseStream_def loop_short)
  obtain m where "parseMessage frame = Some m" "raw m = frame"
    "parseStream ([] @ frame @ []) = ([m], [])"
    using parseStream_one_frame [OF _ v, of "[]" "[]"] by auto
  then show ?thesis by (auto simp: first processIncoming_def)
qed

theorem C5_partial_delivery_witness:
  "parseStream [0x55, 0x14, 0x04, 0x6D, 0x02] = ([], [0x55, 0x14, 0x04, 0x6D, 0x02]) \<and>
   (\<exists>m. parseStream
          (snd (parseStream [0x55, 0x14, 0x04, 0x6D, 0x02]) @
           [0x04, 0x01, 0x00, 0x40, 0x04, 0x05, 1, 2, 3, 4, 5, 6, 7, 0x18, 0x3C]) = ([m], []) \<and>
        raw m = [0x55, 0x14, 0x04, 0x6D, 0x02, 0x04, 0x01, 0x00, 0x40, 0x04, 0x05,
                 1, 2, 3, 4, 5, 6, 7, 0x18, 0x3C] \<and>
        processIncoming (snd (processIncoming [] [0x55, 0x14, 0x04, 0x6D, 0x02]))
          [0x04, 0x01, 0x00, 0x40, 0x04, 0x05, 1, 2, 3, 4, 5, 6, 7, 0x18, 0x3C] = ([m], []))"
proof -
  have built: "buildMessage initialCodec 0x0402 0x40 0x04 0x05 (Some [1, 2, 3, 4, 5, 6, 7]) =
      (Inr (frameBytes 0x0402 0x0100 0x40 0x04 0x05 [1, 2, 3, 4, 5, 6, 7]), \<lparr>msgSeq = 0x0101\<rparr>)"
    by (simp add: buildMessage_cases initialCodec_def payloadBytes_def)
  have len: "length (frameBytes 0x0402 0x0100 0x40 0x04 0x05 [1, 2, 3, 4, 5, 6, 7]) = 20"
    by (simp add: frameBytes_length)
  show ?thesis
    using C5_partial_delivery [OF built len] by (auto simp: frame20)
qed

subsection \<open>C6: resynchronization\<close>

text \<open>
  C6: for every valid frame (the magic byte first, at least 13 bytes, a length field
  equal to the byte count), \<^verbatim>\<open>parseStream\<close> on \<open>[0xAA, 0xBB]\<close> followed by the
  frame yields exactly one message, whose raw bytes are the frame and which is the
  decoding of the frame, and an empty remainder; the same holds after any bytes that do
  not contain the magic byte. The frames that \<^verbatim>\<open>buildMessage\<close> returns for payloads
  of at most 1010 bytes (or no payload) are valid frames.
\<close>

theorem C6_resynchronization:
  "(f ! 0 = 0x55 \<and> 13 \<le> length f \<and> lengthField f = int (length f) \<longrightarrow>
      (\<exists>m. parseStream ([0xAA, 0xBB] @ f) = ([m], []) \<and> raw m = f \<and>
           parseMessage f = Some m \<and>
           (\<forall>pre. 0x55 \<notin> set pre \<longrightarrow> parseStream (pre @ f) = ([m], [])))) \<and>
   (buildMessage s target flags' cmdSet' cmdId' payload' = (Inr frame, s') \<and>
      length (payloadBytes payload') \<le> 1010 \<longrightarrow>
      frame ! 0 = 0x55 \<and> 13 \<le> length frame \<and> lengthField frame = int (length frame) \<and>
      (\<exists>m. parseStream ([0xAA, 0xBB] @ frame) = ([m], []) \<and> raw m = frame \<and>
           parseMessage frame = Some m \<and>
           (\<forall>pre. 0x55 \<notin> set pre \<longrightarrow> parseStream (pre @ frame) = ([m], []))))"
proof -
  have valid: "\<exists>m. parseStream ([0xAA, 0xBB] @ v) = ([m], []) \<and> raw m = v \<and>
           parseMessage v = Some m \<and>
           (\<forall>pre. 0x55 \<notin> set pre \<longrightarrow> parseStream (pre @ v) = ([m], []))"
    if v: "v ! 0 = 0x55" "13 \<le> length v" "lengthField v = int (length v)" for v
  proof -
    have "lengthField v < 1024" using lengthField_range [of v] by simp
    with v(3) have le: "length v \<le> 1024" by linarith
    have one: "0x55 \<notin> set pre \<Longrightarrow>
        \<exists>m. parseMessage v = Some m \<and> raw m = v \<and> parseStream (pre @ v) = ([m], [])"
      for pre
      using parseStream_one_frame [OF _ v le, of pre "[]"] by simp
    obtain m where m: "parseMessage v = Some m" "raw m = v"
      using one [of "[]"] by auto
    have "parseStream (pre @ v) = ([m], [])" if "0x55 \<notin> set pre" for pre
      using one [OF that] m by auto
    moreover from this [of "[0xAA, 0xBB]"] have "parseStream ([0xAA, 0xBB] @ v) = ([m], [])"
      by simp
    ultimately show ?thesis using m by blast
  qed
  have built: "frame ! 0 = 0x55 \<and> 13 \<le> length frame \<and> lengthField frame = int (length frame)"
    if b: "buildMessage s target flags' cmdSet' cmdId' payload' = (Inr frame, s')"
      and len: "length (payloadBytes payload') \<le> 1010"
  proof -
    have frame: "frame = frameBytes target (msgSeq s) flags' cmdSet' cmdId' (payloadBytes payload')"
      using b by (rule buildMessage_Inr)
    show ?thesis
      using frameBytes_valid [OF len, of target "msgSeq s" flags' cmdSet' cmdId', folded frame]
      by simp
  qed
  show ?thesis
    using valid [of f] valid [of frame] built by blast
qed

theorem C6_resynchronization_witness:
  "\<exists>m. parseStream
         ([0xAA, 0xBB] @ [0x55, 0x0D, 0x04, 0x33, 0x02, 0x04, 0x01, 0x00, 0x40, 0x04, 0x05, 0x0A, 0xDE]) =
         ([m], []) \<and>
       raw m = [0x55, 0x0D, 0x04, 0x33, 0x02, 0x04, 0x01, 0x00, 0x40, 0x04, 0x05, 0x0A, 0xDE] \<and>
       parseMessage [0x55, 0x0D, 0x04, 0x33, 0x02, 0x04, 0x01, 0x00, 0x40, 0x04, 0x05, 0x0A, 0xDE] =
         Some m \<and>
       parseStream
         ([0x00, 0xFF, 0x54] @ [0x55, 0x0D, 0x04, 0x33, 0x02, 0x04, 0x01, 0x00, 0x40, 0x04, 0x05, 0x0A, 0xDE]) =
         ([m], [])"
proof -
  have built: "buildMessage initialCodec 0x0402 0x40 0x04 0x05 None =
      (Inr (frameBytes 0x0402 0x0100 0x40 0x04 0x05 []), \<lparr>msgSeq = 0x0101\<rparr>)"
    by (simp add: buildMessage_cases initialCodec_def payloadBytes_def)
  have len: "length (payloadBytes None) \<le> 1010" by (simp add: payloadBytes_def)
  have pre: "0x55 \<notin> set [0x00, 0xFF, 0x54 :: u8]" by simp
  have "\<exists>m. parseStream ([0xAA, 0xBB] @ frameBytes 0x0402 0x0100 0x40 0x04 0x05 []) = ([m], []) \<and>
      raw m = frameBytes 0x0402 0x0100 0x40 0x04 0x05 [] \<and>
      parseMessage (frameBytes 0x0402 0x0100 0x40 0x04 0x05 []) = Some m \<and>
      (\<forall>pre. 0x55 \<notin> set pre \<longrightarrow>
         parseStream (pre @ frameBytes 0x0402 0x0100 0x40 0x04 0x05 []) = ([m], []))"
    using C6_resynchronization [where f = "frameBytes 0x0402 0x0100 0x40 0x04 0x05 []"
        and s = initialCodec and target = "0x0402" and flags' = "0x40" and cmdSet' = "0x04"
        and cmdId' = "0x05" and payload' = None
        and frame = "frameBytes 0x0402 0x0100 0x40 0x04 0x05 []"
        and s' = "\<lparr>msgSeq = 0x0101\<rparr>"]
      built len
    by blast
  then obtain m where
    m: "parseStream ([0xAA, 0xBB] @ frameBytes 0x0402 0x0100 0x40 0x04 0x05 []) = ([m], [])"
      "raw m = frameBytes 0x0402 0x0100 0x40 0x04 0x05 []"
      "parseMessage (frameBytes 0x0402 0x0100 0x40 0x04 0x05 []) = Some m"
    and all: "\<And>pre. 0x55 \<notin> set pre \<Longrightarrow>
      parseStream (pre @ frameBytes 0x0402 0x0100 0x40 0x04 0x05 []) = ([m], [])"
    by blast
  from m all [OF pre] show ?thesis
    unfolding frame13 by blast
qed

subsection \<open>C7: decoding does not check the checksums\<close>

text \<open>
  C7, as stated, says that no returned field depends on the checksum bytes. The returned
  \<open>raw\<close> is the slice of the input and holds them: two 13-byte inputs that differ
  only in the header-checksum byte at offset 3 decode to different \<open>raw\<close>. And C7
  admits any length field up to the input's size: with a length field of 8 the last
  two bytes of the frame are offsets 6 and 7, which \<open>msgId\<close> reads.
\<close>

theorem C7_raw_holds_checksums:
  "map_option raw (parseMessage
       [0x55, 0x0D, 0x04, 0x33, 0x02, 0x04, 0x01, 0x00, 0x40, 0x04, 0x05, 0x0A, 0xDE]) =
     Some [0x55, 0x0D, 0x04, 0x33, 0x02, 0x04, 0x01, 0x00, 0x40, 0x04, 0x05, 0x0A, 0xDE] \<and>
   map_option raw (parseMessage
       [0x55, 0x0D, 0x04, 0x00, 0x02, 0x04, 0x01, 0x00, 0x40, 0x04, 0x05, 0x0A, 0xDE]) =
     Some [0x55, 0x0D, 0x04, 0x00, 0x02, 0x04, 0x01, 0x00, 0x40, 0x04, 0x05, 0x0A, 0xDE] \<and>
   map_option msgId (parseMessage
       [0x55, 0x08, 0x04, 0x33, 0x02, 0x04, 0x01, 0x00, 0x40, 0x04, 0x05, 0x0A, 0xDE]) =
     Some 0x0100 \<and>
   map_option msgId (parseMessage
       [0x55, 0x08, 0x04, 0x33, 0x02, 0x04, 0x01, 0x01, 0x40, 0x04, 0x05, 0x0A, 0xDE]) =
     Some 0x0101"
  by code_simp

text \<open>
  C7 (amended): \<^verbatim>\<open>parseMessage\<close> verifies no checksum. For every input of at least
  13 bytes that starts with \<open>0x55\<close> and whose length field is at most the number of
  bytes, it returns a message, whatever the header-checksum byte (offset 3) and the
  trailing-checksum bytes are; \<open>raw\<close> is the first \<open>length\<close> bytes of the input; the
  other returned fields (length, sender, receiver, msgId, flags, cmdSet, cmdId, payload)
  do not change when the byte at offset 3 is replaced by any value \<open>h\<close>, and, when the
  length field is at least 13, nor when also the two trailing bytes at offsets
  \<open>length - 2\<close> and \<open>length - 1\<close> are replaced by any values \<open>c1\<close>, \<open>c2\<close>.
\<close>

theorem C7_permissive_decode:
  "13 \<le> length data \<and> data ! 0 = 0x55 \<and> lengthField data \<le> int (length data) \<longrightarrow>
     (\<exists>m. parseMessage data = Some m \<and>
        raw m = take (nat (lengthField data)) data \<and>
        (\<exists>m'. parseMessage (data[3 := h]) = Some m' \<and> sameFields m m') \<and>
        (13 \<le> lengthField data \<longrightarrow>
           (\<exists>m'. parseMessage
                   (data[3 := h, nat (lengthField data) - 2 := c1,
                         nat (lengthField data) - 1 := c2]) = Some m' \<and>
                 sameFields m m')))"
proof (intro impI, elim conjE)
  assume len: "13 \<le> length data" and magic: "data ! 0 = 0x55"
    and lf: "lengthField data \<le> int (length data)"
  let ?n = "nat (lengthField data)"
  have lf0: "0 \<le> lengthField data" using lengthField_range by blast
  note pm = parseMessage_Some [OF len magic lf]
  let ?d1 = "data[3 := h]"
  have pm1: "parseMessage ?d1 = Some \<lparr>length' = lengthField data, sender = uint (data ! 4),
          receiver = uint (data ! 5),
          msgId = readUInt16BE data 6, flags = uint (data ! 8), cmdSet = uint (data ! 9),
          cmdId = uint (data ! 10), payload = slice' data 11 (lengthField data - 2),
          raw = slice' ?d1 0 (lengthField data)\<rparr>"
    using len magic lf
    by (simp add: parseMessage_Some lengthField_update slice_payload_update readUInt16BE_def)
  have part1: "\<exists>m'. parseMessage ?d1 = Some m' \<and>
      sameFields \<lparr>length' = lengthField data, sender = uint (data ! 4), receiver = uint (data ! 5),
          msgId = readUInt16BE data 6, flags = uint (data ! 8), cmdSet = uint (data ! 9),
          cmdId = uint (data ! 10), payload = slice' data 11 (lengthField data - 2),
          raw = slice' data 0 (lengthField data)\<rparr> m'"
    by (simp add: pm1 sameFields_def)
  have part2: "\<exists>m'. parseMessage (?d1[?n - 2 := c1, ?n - 1 := c2]) = Some m' \<and>
      sameFields \<lparr>length' = lengthField data, sender = uint (data ! 4), receiver = uint (data ! 5),
          msgId = readUInt16BE data 6, flags = uint (data ! 8), cmdSet = uint (data ! 9),
          cmdId = uint (data ! 10), payload = slice' data 11 (lengthField data - 2),
          raw = slice' data 0 (lengthField data)\<rparr> m'"
    if big: "13 \<le> lengthField data"
  proof -
    define d3 where "d3 = ?d1[?n - 2 := c1, ?n - 1 := c2]"
    have n: "13 \<le> ?n" using big by simp
    have lf3: "lengthField d3 = lengthField data"
      using n by (simp add: lengthField_update d3_def)
    have e: "0 \<le> lengthField data - 2" "nat (lengthField data - 2) \<le> ?n - 2"
      "nat (lengthField data - 2) \<le> ?n - 1"
      using big by simp_all
    have "slice' d3 11 (lengthField data - 2) =
          slice' (?d1[?n - 2 := c1]) 11 (lengthField data - 2)"
      unfolding d3_def using len e by (intro slice_payload_update) simp_all
    also have "\<dots> = slice' ?d1 11 (lengthField data - 2)"
      using len e by (intro slice_payload_update) simp_all
    also have "\<dots> = slice' data 11 (lengthField data - 2)"
      using len by (intro slice_payload_update) simp_all
    finally have pay: "slice' d3 11 (lengthField data - 2) =
        slice' data 11 (lengthField data - 2)" .
    have nth3: "d3 ! j = data ! j" if "j < 11" "j \<noteq> 3" for j
      using that n by (simp add: d3_def)
    have a: "13 \<le> length d3" using len by (simp add: d3_def)
    have b: "d3 ! 0 = 0x55" using nth3 [of 0] magic by simp
    have c: "lengthField d3 \<le> int (length d3)" using lf lf3 by (simp add: d3_def)
    have "\<exists>m'. parseMessage d3 = Some m' \<and>
      sameFields \<lparr>length' = lengthField data, sender = uint (data ! 4), receiver = uint (data ! 5),
          msgId = readUInt16BE data 6, flags = uint (data ! 8), cmdSet = uint (data ! 9),
          cmdId = uint (data ! 10), payload = slice' data 11 (lengthField data - 2),
          raw = slice' data 0 (lengthField data)\<rparr> m'"
      by (simp add: parseMessage_Some [OF a b c] sameFields_def lf3 pay nth3 readUInt16BE_def)
    then show ?thesis by (simp only: d3_def)
  qed
  show "\<exists>m. parseMessage data = Some m \<and>
        raw m = take (nat (lengthField data)) data \<and>
        (\<exists>m'. parseMessage (data[3 := h]) = Some m' \<and> sameFields m m') \<and>
        (13 \<le> lengthField data \<longrightarrow>
           (\<exists>m'. parseMessage
                   (data[3 := h, nat (lengthField data) - 2 := c1,
                         nat (lengthField data) - 1 := c2]) = Some m' \<and>
                 sameFields m m'))"
    using part1 part2 lf0 by (simp add: pm slice_zero)
qed

theorem C7_permissive_decode_witness:
  "\<exists>m. parseMessage
         [0x55, 0x0D, 0x04, 0x33, 0x02, 0x04, 0x01, 0x00, 0x40, 0x04, 0x05, 0x0A, 0xDE] = Some m \<and>
       raw m = [0x55, 0x0D, 0x04, 0x33, 0x02, 0x04, 0x01, 0x00, 0x40, 0x04, 0x05, 0x0A, 0xDE] \<and>
       (\<exists>m'. parseMessage
          [0x55, 0x0D, 0x04, 0x00, 0x02, 0x04, 0x01, 0x00, 0x40, 0x04, 0x05, 0x0A, 0xDE] = Some m' \<and>
          sameFields m m') \<and>
       (\<exists>m'. parseMessage
          [0x55, 0x0D, 0x04, 0x00, 0x02, 0x04, 0x01, 0x00, 0x40, 0x04, 0x05, 0xFF, 0xFF] = Some m' \<and>
          sameFields m m')"
  using C7_permissive_decode
    [of "[0x55, 0x0D, 0x04, 0x33, 0x02, 0x04, 0x01, 0x00, 0x40, 0x04, 0x05, 0x0A, 0xDE]"
        "0x00" "0xFF" "0xFF"]
  by (simp add: frame13_lengthField list_update_Cons_numeral)

subsection \<open>C8: what the framer surfaces\<close>

text \<open>
  C8: for every input buffer, every message in the list \<^verbatim>\<open>parseStream\<close> returns has
  raw bytes that start with \<open>0x55\<close> and a length field between 13 and 1024 (which is
  also the number of its raw bytes), and the raw bytes of the messages lie in the input
  one after the other in the order of the list, before the remainder.
\<close>

theorem C8_surfaced_frames:
  "(\<forall>m \<in> set (fst (parseStream buffer)).
      raw m \<noteq> [] \<and> raw m ! 0 = 0x55 \<and> 13 \<le> length' m \<and> length' m \<le> 1024 \<and>
      lengthField (raw m) = length' m \<and> int (length (raw m)) = length' m) \<and>
   inOrder buffer (fst (parseStream buffer)) (snd (parseStream buffer))"
proof -
  obtain ms rem where p: "parseStream_loop ([], buffer) = (ms, rem)"
    by (cases "parseStream_loop ([], buffer)")
  from loop_invariant [OF p] have "list_all surfaced ms" "inOrder buffer ms rem" by simp_all
  then show ?thesis
    using p by (simp add: parseStream_def list_all_iff surfaced_def)
qed

theorem C8_surfaced_frames_witness:
  "fst (parseStream exampleStream) = [exampleMessage13, exampleMessage16] \<and>
   raw exampleMessage13 ! 0 = 0x55 \<and> 13 \<le> length' exampleMessage13 \<and>
   length' exampleMessage13 \<le> 1024 \<and>
   raw exampleMessage16 ! 0 = 0x55 \<and> 13 \<le> length' exampleMessage16 \<and>
   length' exampleMessage16 \<le> 1024 \<and>
   inOrder exampleStream [exampleMessage13, exampleMessage16] [0x55, 0x20]"
  using C8_surfaced_frames [of exampleStream]
  by (simp add: stream_example)

subsection \<open>C9: the handshake timeout\<close>

text \<open>
  C9: when the credentials have been sent (both writes succeeded and \<^verbatim>\<open>buildMessage\<close>
  returned), the paired flag is not set at that point, and no message that arrives during
  the delays of the polling loop sets it, then \<^verbatim>\<open>_pair\<close> waits all 30 delays, emits
  \<open>pairingTimeout\<close> as its last event and returns \<open>false\<close>: no exception. The paired
  flag is still false afterwards and no \<open>paired\<close> event is among the events emitted
  after the credentials were sent.
\<close>

theorem C9_timeout_advisory:
  assumes "sendCredentials env identifier pin (c, s) = (Inr msg, c1, s1)"
    and "\<not> paired c1"
    and "\<forall>i<30. \<forall>m \<in> set (arrivals env (2 + i)). \<not> setsPaired m"
  shows "\<exists>c2 evs. pair env identifier pin (c, s) = (Inr False, c2, s1, 30) \<and>
           \<not> paired c2 \<and>
           emitted c2 = emitted c1 @ evs @ [EvPairingTimeout] \<and>
           (\<forall>b. EvPaired b \<notin> set evs)"
proof -
  obtain c' evs where c': "pollLoop env 0 c1 = (c', 30)" "\<not> paired c'"
    "emitted c' = emitted c1 @ evs" "\<forall>b. EvPaired b \<notin> set evs"
    using pollLoop_timeout [OF assms(2) _ assms(3), of 0] by auto
  have "pair env identifier pin (c, s) = (Inr False, emit EvPairingTimeout c', s1, 30)"
    using c'(2) by (simp add: pair_def assms(1) c'(1))
  moreover have "emitted (emit EvPairingTimeout c') = emitted c1 @ evs @ [EvPairingTimeout]"
    by (simp add: c'(3))
  ultimately show ?thesis using c'(2,4) by (intro exI [of _ "emit EvPairingTimeout c'"] exI [of _ evs]) simp
qed

theorem C9_timeout_advisory_witness:
  "\<exists>c2. pair exampleEnvironment DEFAULT_IDENTIFIER DEFAULT_PIN (newConnection, initialCodec) =
          (Inr False, c2, \<lparr>msgSeq = 0x0101\<rparr>, 30) \<and>
        \<not> paired c2 \<and>
        emitted c2 = [EvPairing, EvPairingRequired, EvBattery 80, EvPairingTimeout]"
proof -
  have idle: "\<not> paired (emit EvPairing newConnection)"
    by (simp add: newConnection_def)
  have quiet: "\<forall>i<30. \<forall>m \<in> set (arrivals exampleEnvironment (2 + i)). \<not> setsPaired m"
    using exampleArrival_quiet by (simp add: exampleEnvironment_def)
  from C9_timeout_advisory [OF sent_example idle quiet]
  obtain c2 where c2: "pair exampleEnvironment DEFAULT_IDENTIFIER DEFAULT_PIN
      (newConnection, initialCodec) = (Inr False, c2, \<lparr>msgSeq = 0x0101\<rparr>, 30)"
    "\<not> paired c2"
    by blast
  have "emitted c2 = [EvPairing, EvPairingRequired, EvBattery 80, EvPairingTimeout]"
    using pair_example by (simp add: c2(1))
  with c2 show ?thesis by blast
qed

subsection \<open>C10: the framer terminates\<close>

text \<open>
  C10: \<^verbatim>\<open>parseStream\<close> terminates on every buffer: run with a bound of
  \<open>length buffer + 1\<close> passes, the loop reaches its exit, with the result of
  \<^verbatim>\<open>parseStream\<close>. Each pass entered with at least 13 bytes either leaves the loop
  (no magic byte; or, from the first magic byte on, fewer than 4 bytes or fewer bytes than
  the length field says), or continues with a strictly shorter buffer: shorter by the
  bytes before the magic byte and that one byte when the length field is out of bounds, or
  by the bytes before the magic byte and a whole frame of at least 13 bytes.
\<close>

theorem C10_terminates:
  "parseStream_fuel (Suc (length buffer)) ([], buffer) = Some (parseStream buffer) \<and>
   (13 \<le> length b \<longrightarrow>
      (0x55 \<notin> set b \<and> parseStream_body (messages, b) = Break (messages, [])) \<or>
      (\<exists>pre b1. b = pre @ b1 \<and> 0x55 \<notin> set pre \<and> b1 \<noteq> [] \<and> b1 ! 0 = 0x55 \<and>
         (length b1 < 4 \<or> int (length b1) < lengthField b1) \<and>
         parseStream_body (messages, b) = Break (messages, b1)) \<or>
      (\<exists>st'. parseStream_body (messages, b) = Continue st' \<and> length (snd st') < length b \<and>
         ((\<exists>pre. b = pre @ 0x55 # snd st' \<and> 0x55 \<notin> set pre \<and>
             (lengthField (0x55 # snd st') < 13 \<or> lengthField (0x55 # snd st') > 1024)) \<or>
          (\<exists>pre f. b = pre @ f @ snd st' \<and> 0x55 \<notin> set pre \<and> 13 \<le> length f \<and>
             lengthField f = int (length f)))))"
proof (intro conjI impI)
  show "parseStream_fuel (Suc (length buffer)) ([], buffer) = Some (parseStream buffer)"
    by (simp add: fuel_enough parseStream_def del: parseStream_fuel.simps)
next
  assume len: "13 \<le> length b"
  from body_cases [OF len, of messages]
  consider (absent) "0x55 \<notin> set b" "parseStream_body (messages, b) = Break (messages, [])"
    | (wait) pre b1 where "b = pre @ b1" "0x55 \<notin> set pre" "b1 \<noteq> []" "b1 ! 0 = 0x55"
        "length b1 < 4 \<or> int (length b1) < lengthField b1"
        "parseStream_body (messages, b) = Break (messages, b1)"
    | (spurious) pre rest where "b = pre @ 0x55 # rest" "0x55 \<notin> set pre"
        "lengthField (0x55 # rest) < 13 \<or> lengthField (0x55 # rest) > 1024"
        "parseStream_body (messages, b) = Continue (messages, rest)"
    | (frame) pre f rest m where "b = pre @ f @ rest" "0x55 \<notin> set pre" "13 \<le> length f"
        "lengthField f = int (length f)"
        "parseStream_body (messages, b) = Continue (messages @ [m], rest)"
    by blast
  then show "(0x55 \<notin> set b \<and> parseStream_body (messages, b) = Break (messages, [])) \<or>
      (\<exists>pre b1. b = pre @ b1 \<and> 0x55 \<notin> set pre \<and> b1 \<noteq> [] \<and> b1 ! 0 = 0x55 \<and>
         (length b1 < 4 \<or> int (length b1) < lengthField b1) \<and>
         parseStream_body (messages, b) = Break (messages, b1)) \<or>
      (\<exists>st'. parseStream_body (messages, b) = Continue st' \<and> length (snd st') < length b \<and>
         ((\<exists>pre. b = pre @ 0x55 # snd st' \<and> 0x55 \<notin> set pre \<and>
             (lengthField (0x55 # snd st') < 13 \<or> lengthField (0x55 # snd st') > 1024)) \<or>
          (\<exists>pre f. b = pre @ f @ snd st' \<and> 0x55 \<notin> set pre \<and> 13 \<le> length f \<and>
             lengthField f = int (length f))))"
  proof cases
    case absent
    then show ?thesis by blast
  next
    case wait
    then show ?thesis by blast
  next
    case spurious
    have "length (snd (messages, rest)) < length b" by (simp add: spurious(1))
    moreover have "\<exists>pre. b = pre @ 0x55 # snd (messages, rest) \<and> 0x55 \<notin> set pre \<and>
        (lengthField (0x55 # snd (messages, rest)) < 13 \<or>
         lengthField (0x55 # snd (messages, rest)) > 1024)"
      using spurious by auto
    ultimately show ?thesis using spurious(4) by blast
  next
    case frame
    have "length (snd (messages @ [m], rest)) < length b"
      using frame(3) by (auto simp: frame(1))
    moreover have "\<exists>pre f. b = pre @ f @ snd (messages @ [m], rest) \<and> 0x55 \<notin> set pre \<and>
        13 \<le> length f \<and> lengthField f = int (length f)"
      using frame by auto
    ultimately show ?thesis using frame(5) by blast
  qed
qed

theorem C10_terminates_witness:
  "parseStream_fuel (Suc (length exampleStream)) ([], exampleStream) =
     Some ([exampleMessage13, exampleMessage16], [0x55, 0x20]) \<and>
   (\<exists>st'. parseStream_body ([], exampleStream) = Continue st' \<and>
          length (snd st') < length exampleStream)"
proof -
  have run: "parseStream_fuel (Suc (length exampleStream)) ([], exampleStream) =
      Some ([exampleMessage13, exampleMessage16], [0x55, 0x20])"
    using C10_terminates [of exampleStream] by (simp only: stream_example)
  have pass: "\<exists>st'. parseStream_body ([], exampleStream) = Continue st' \<and>
      length (snd st') < length exampleStream"
    using C10_terminates [of exampleStream exampleStream "[]"]
    by (auto simp: body_example exampleStream_length)
  from run pass show ?thesis by (rule conjI)
qed

end
